theory Spec2Isabelle
  imports Main "HOL-Library.Word" "HOL-Library.Sublist"
begin

section \<open>Lead Management Tool: the logic of app.js\<close>

text \<open>
  The application keeps a list of lead objects in one LocalStorage slot, validates a form
  of four fields, adds, updates and deletes leads, and filters the list for display.
  Every function below carries the name of the JavaScript function it embeds.
  The DOM is reduced to the cells the logic reads and writes (the value of an input, the
  text of an error element, the class \<open>invalid\<close>); rendering the table is left out.
\<close>

subsection \<open>JavaScript strings\<close>

text \<open>
  A JavaScript string is a sequence of UTF-16 code units, and \<open>length\<close> counts code
  units. \<open>js\<close> writes an ASCII literal.
\<close>

type_synonym cu = "16 word"
type_synonym jsstring = "cu list"

definition cu_of :: "char \<Rightarrow> cu" where
  "cu_of c = of_nat (of_char c)"

definition js :: "string \<Rightarrow> jsstring" where
  "js s = map cu_of s"

text \<open>
  White space and line terminators of ECMAScript: the code units that
  \<open>String.prototype.trim\<close> strips and that \<open>\s\<close> matches in a regular expression.
\<close>

definition is_white_space :: "cu \<Rightarrow> bool" where
  "is_white_space c \<longleftrightarrow>
     c = 0x09 \<or> c = 0x0A \<or> c = 0x0B \<or> c = 0x0C \<or> c = 0x0D \<or> c = 0x20 \<or> c = 0xA0 \<or>
     c = 0x1680 \<or> (0x2000 \<le> c \<and> c \<le> 0x200A) \<or> c = 0x2028 \<or> c = 0x2029 \<or>
     c = 0x202F \<or> c = 0x205F \<or> c = 0x3000 \<or> c = 0xFEFF"

definition is_digit :: "cu \<Rightarrow> bool" where
  "is_digit c \<longleftrightarrow> 0x30 \<le> c \<and> c \<le> 0x39"

definition trim :: "jsstring \<Rightarrow> jsstring" where
  "trim s = rev (dropWhile is_white_space (rev (dropWhile is_white_space s)))"

text \<open>\<open>s.includes(t)\<close>: \<open>t\<close> occurs in \<open>s\<close> as a contiguous run of code units.\<close>

fun starts_with :: "jsstring \<Rightarrow> jsstring \<Rightarrow> bool" where
  "starts_with s [] = True"
| "starts_with [] (c # t) = False"
| "starts_with (d # s) (c # t) = (d = c \<and> starts_with s t)"

fun js_includes :: "jsstring \<Rightarrow> jsstring \<Rightarrow> bool" where
  "js_includes [] t = (t = [])"
| "js_includes (d # s) t = (starts_with (d # s) t \<or> js_includes s t)"

subsection \<open>Regular expressions of the form \<open>^[class]{lo,hi}$\<close>\<close>

datatype class_item = ClassDigit | ClassSpace | ClassChar cu

fun item_matches :: "class_item \<Rightarrow> cu \<Rightarrow> bool" where
  "item_matches ClassDigit c = is_digit c"
| "item_matches ClassSpace c = is_white_space c"
| "item_matches (ClassChar d) c = (c = d)"

definition class_matches :: "class_item list \<Rightarrow> cu \<Rightarrow> bool" where
  "class_matches cls c = list_ex (\<lambda>i. item_matches i c) cls"

record regex =
  char_class :: "class_item list"
  at_least :: nat
  at_most :: nat

text \<open>
  The matcher walks the input from \<open>^\<close>: each code unit must be in the class and
  must still be allowed by the upper bound; at \<open>$\<close> the lower bound must be used up.
\<close>

fun match_from :: "class_item list \<Rightarrow> nat \<Rightarrow> nat \<Rightarrow> jsstring \<Rightarrow> bool" where
  "match_from cls lo hi [] = (lo = 0)"
| "match_from cls lo hi (c # s) =
     (0 < hi \<and> class_matches cls c \<and> match_from cls (lo - 1) (hi - 1) s)"

definition regex_test :: "regex \<Rightarrow> jsstring \<Rightarrow> bool" where
  "regex_test r s = match_from (char_class r) (at_least r) (at_most r) s"

subsection \<open>Validation\<close>

record validation =
  valid :: bool
  message :: jsstring

text \<open>
  The validators receive the \<open>value\<close> of an input or select element, which is always a
  string, so \<open>value || ''\<close> is \<open>value\<close>. A string is falsy exactly when it is empty.
\<close>

definition validateName :: "jsstring \<Rightarrow> validation" where
  "validateName v =
     (let trimmed = trim v in
      if trimmed = [] then \<lparr>valid = False, message = js ''Name is required.''\<rparr>
      else if length trimmed > 100
        then \<lparr>valid = False, message = js ''Name must be 100 characters or less.''\<rparr>
      else \<lparr>valid = True, message = []\<rparr>)"

text \<open>\<open>/^[\d\s\-\(\)\+\.]{7,20}$/\<close>\<close>

definition phoneRegex :: regex where
  "phoneRegex =
     \<lparr>char_class = [ClassDigit, ClassSpace, ClassChar 0x2D, ClassChar 0x28, ClassChar 0x29,
                     ClassChar 0x2B, ClassChar 0x2E],
      at_least = 7, at_most = 20\<rparr>"

text \<open>The message holds an en dash (U+2013) between 7 and 20.\<close>

definition validatePhone :: "jsstring \<Rightarrow> validation" where
  "validatePhone v =
     (let trimmed = trim v in
      if trimmed = [] then \<lparr>valid = False, message = js ''Phone number is required.''\<rparr>
      else if \<not> regex_test phoneRegex trimmed
        then \<lparr>valid = False,
              message = js ''Enter a valid phone number (7'' @ [0x2013] @ js ''20 digits/symbols).''\<rparr>
      else \<lparr>valid = True, message = []\<rparr>)"

definition validateSource :: "jsstring \<Rightarrow> validation" where
  "validateSource v =
     (if v = [] \<or> trim v = [] then \<lparr>valid = False, message = js ''Please select a source.''\<rparr>
      else \<lparr>valid = True, message = []\<rparr>)"

definition validateStatus :: "jsstring \<Rightarrow> validation" where
  "validateStatus v =
     (if v = [] \<or> trim v = [] then \<lparr>valid = False, message = js ''Please select a status.''\<rparr>
      else \<lparr>valid = True, message = []\<rparr>)"

subsection \<open>The form\<close>

text \<open>
  The cells of the form: the values of the hidden id input, the two text inputs and the
  two selects; the title, the label of the submit button and whether the cancel button is
  shown; for each field the text of its error element and whether the field carries the
  class \<open>invalid\<close>.
\<close>

record form =
  leadId :: jsstring
  leadName :: jsstring
  leadPhone :: jsstring
  leadSource :: jsstring
  leadStatus :: jsstring
  formTitle :: jsstring
  submitLabel :: jsstring
  cancelShown :: bool
  nameError :: jsstring
  phoneError :: jsstring
  sourceError :: jsstring
  statusError :: jsstring
  nameInvalid :: bool
  phoneInvalid :: bool
  sourceInvalid :: bool
  statusInvalid :: bool

text \<open>
  \<open>validateForm\<close> computes the four results first, then writes the four messages and
  the four classes, and returns the conjunction. The form with the errors shown is
  returned beside the verdict.
\<close>

definition validateForm :: "form \<Rightarrow> bool \<times> form" where
  "validateForm f =
     (let nameResult = validateName (leadName f);
          phoneResult = validatePhone (leadPhone f);
          sourceResult = validateSource (leadSource f);
          statusResult = validateStatus (leadStatus f);
          f1 = f\<lparr>nameError := message nameResult, phoneError := message phoneResult,
                 sourceError := message sourceResult, statusError := message statusResult\<rparr>;
          f2 = f1\<lparr>nameInvalid := \<not> valid nameResult, phoneInvalid := \<not> valid phoneResult,
                  sourceInvalid := \<not> valid sourceResult, statusInvalid := \<not> valid statusResult\<rparr>
      in (valid nameResult \<and> valid phoneResult \<and> valid sourceResult \<and> valid statusResult, f2))"

definition clearValidation :: "form \<Rightarrow> form" where
  "clearValidation f =
     f\<lparr>nameError := [], phoneError := [], sourceError := [], statusError := [],
       nameInvalid := False, phoneInvalid := False, sourceInvalid := False,
       statusInvalid := False\<rparr>"

definition resetForm :: "form \<Rightarrow> form" where
  "resetForm f =
     clearValidation
       (f\<lparr>leadId := [], leadName := [], leadPhone := [], leadSource := [], leadStatus := [],
          formTitle := js ''Add New Lead'', submitLabel := js ''Add Lead'',
          cancelShown := False\<rparr>)"

subsection \<open>Exceptions\<close>

text \<open>
  A computation that may throw returns \<open>Inl\<close> of the exception. \<open>then_do\<close> runs the
  next statement when the first one returned; \<open>try_catch\<close> is the \<open>try\<close> statement.
\<close>

datatype error = TypeError | SyntaxError | QuotaExceededError | SecurityError

definition then_do :: "error + 'a \<Rightarrow> ('a \<Rightarrow> error + 'b) \<Rightarrow> error + 'b" where
  "then_do r k = (case r of Inl e \<Rightarrow> Inl e | Inr x \<Rightarrow> k x)"

definition try_catch :: "error + 'a \<Rightarrow> (error \<Rightarrow> error + 'a) \<Rightarrow> error + 'a" where
  "try_catch r h = (case r of Inl e \<Rightarrow> h e | Inr x \<Rightarrow> Inr x)"

subsection \<open>JSON values\<close>

text \<open>
  What \<open>JSON.parse\<close> returns, and so what the lead list is made of at run time. An
  object is the list of its own properties in enumeration order. A number is kept as the
  lexeme it was read from; the arithmetic of doubles is not part of this development.
\<close>

datatype json =
    JNull
  | JBool bool
  | JNum jsstring
  | JStr jsstring
  | JArr "json list"
  | JObj "(jsstring \<times> json) list"

text \<open>
  The built-in functions that depend on the Unicode case tables or on the arithmetic of
  doubles are parameters: \<open>String.prototype.toLowerCase\<close>, the truth value of the
  number a lexeme denotes, and the text \<open>JSON.stringify\<close> prints for that number.
\<close>

record runtime =
  toLowerCase :: "jsstring \<Rightarrow> jsstring"
  numberToBoolean :: "jsstring \<Rightarrow> bool"
  numberToString :: "jsstring \<Rightarrow> jsstring"

text \<open>
  Reading one of the properties \<open>id\<close>, \<open>name\<close>, \<open>phone\<close>, \<open>source\<close>,
  \<open>status\<close>: no prototype defines them, so an object yields its own property or
  \<open>undefined\<close> (\<open>None\<close>), every other value but \<open>null\<close> yields \<open>undefined\<close>,
  and \<open>null\<close> throws.
\<close>

fun property :: "json \<Rightarrow> jsstring \<Rightarrow> error + json option" where
  "property JNull k = Inl TypeError"
| "property (JObj kvs) k = Inr (map_of kvs k)"
| "property v k = Inr None"

fun truthy :: "runtime \<Rightarrow> json option \<Rightarrow> bool" where
  "truthy rt None = False"
| "truthy rt (Some JNull) = False"
| "truthy rt (Some (JBool b)) = b"
| "truthy rt (Some (JNum n)) = numberToBoolean rt n"
| "truthy rt (Some (JStr s)) = (s \<noteq> [])"
| "truthy rt (Some (JArr vs)) = True"
| "truthy rt (Some (JObj kvs)) = True"

text \<open>
  Calling an array method on the value \<open>getLeads\<close> returned: only an array has the
  method; on anything else the call throws.
\<close>

fun as_array :: "json \<Rightarrow> error + json list" where
  "as_array (JArr vs) = Inr vs"
| "as_array v = Inl TypeError"

text \<open>\<open>Array.prototype.filter\<close> and \<open>findIndex\<close> with a callback that may throw.\<close>

fun array_filter :: "('a \<Rightarrow> error + bool) \<Rightarrow> 'a list \<Rightarrow> error + 'a list" where
  "array_filter p [] = Inr []"
| "array_filter p (x # xs) =
     then_do (p x) (\<lambda>keep.
     then_do (array_filter p xs) (\<lambda>ys.
     Inr (if keep then x # ys else ys)))"

text \<open>\<open>findIndex\<close> stops at the first element the callback accepts; \<open>None\<close> is \<open>-1\<close>.\<close>

fun array_findIndex :: "('a \<Rightarrow> error + bool) \<Rightarrow> 'a list \<Rightarrow> error + nat option" where
  "array_findIndex p [] = Inr None"
| "array_findIndex p (x # xs) =
     then_do (p x) (\<lambda>found.
     if found then Inr (Some 0)
     else then_do (array_findIndex p xs) (\<lambda>r. Inr (map_option Suc r)))"

subsection \<open>\<open>JSON.stringify\<close>\<close>

definition hex_digit :: "nat \<Rightarrow> cu" where
  "hex_digit n = (if n < 10 then 0x30 + of_nat n else 0x61 + of_nat (n - 10))"

definition unicode_escape :: "cu \<Rightarrow> jsstring" where
  "unicode_escape c =
     [0x5C, 0x75, hex_digit (unat c div 4096), hex_digit (unat c div 256 mod 16),
      hex_digit (unat c div 16 mod 16), hex_digit (unat c mod 16)]"

definition is_high_surrogate :: "cu \<Rightarrow> bool" where
  "is_high_surrogate c \<longleftrightarrow> 0xD800 \<le> c \<and> c \<le> 0xDBFF"

definition is_low_surrogate :: "cu \<Rightarrow> bool" where
  "is_low_surrogate c \<longleftrightarrow> 0xDC00 \<le> c \<and> c \<le> 0xDFFF"

text \<open>
  \<open>QuoteJSONString\<close>, between the quotes: backspace, tab, line feed, form feed,
  carriage return, the quote and the backslash get their two-character escape; any other
  code unit below U+0020 and any surrogate that is not part of a pair is written
  \<open>\uXXXX\<close> with lower-case digits; everything else is copied.
\<close>

fun quote_body :: "jsstring \<Rightarrow> jsstring" where
  "quote_body [] = []"
| "quote_body (c # s) =
     (if c = 0x08 then [0x5C, 0x62] @ quote_body s
      else if c = 0x09 then [0x5C, 0x74] @ quote_body s
      else if c = 0x0A then [0x5C, 0x6E] @ quote_body s
      else if c = 0x0C then [0x5C, 0x66] @ quote_body s
      else if c = 0x0D then [0x5C, 0x72] @ quote_body s
      else if c = 0x22 then [0x5C, 0x22] @ quote_body s
      else if c = 0x5C then [0x5C, 0x5C] @ quote_body s
      else if c < 0x20 then unicode_escape c @ quote_body s
      else if is_high_surrogate c then
        (case s of
           [] \<Rightarrow> unicode_escape c
         | d # s' \<Rightarrow>
             if is_low_surrogate d then c # d # quote_body s'
             else unicode_escape c @ quote_body s)
      else if is_low_surrogate c then unicode_escape c @ quote_body s
      else c # quote_body s)"

definition quote :: "jsstring \<Rightarrow> jsstring" where
  "quote s = [0x22] @ quote_body s @ [0x22]"

fun join_with :: "cu \<Rightarrow> jsstring list \<Rightarrow> jsstring" where
  "join_with sep [] = []"
| "join_with sep [x] = x"
| "join_with sep (x # y # ys) = x @ [sep] @ join_with sep (y # ys)"

text \<open>Without indentation: no white space between the tokens.\<close>

primrec JSON_stringify :: "runtime \<Rightarrow> json \<Rightarrow> jsstring" where
  "JSON_stringify rt JNull = js ''null''"
| "JSON_stringify rt (JBool b) = (if b then js ''true'' else js ''false'')"
| "JSON_stringify rt (JNum n) = numberToString rt n"
| "JSON_stringify rt (JStr s) = quote s"
| "JSON_stringify rt (JArr vs) =
     [0x5B] @ join_with 0x2C (map (JSON_stringify rt) vs) @ [0x5D]"
| "JSON_stringify rt (JObj kvs) =
     [0x7B] @ join_with 0x2C (map (\<lambda>kt. quote (fst kt) @ [0x3A] @ snd kt)
                                 (map (map_prod id (JSON_stringify rt)) kvs)) @ [0x7D]"

subsection \<open>\<open>JSON.parse\<close>\<close>

definition is_json_space :: "cu \<Rightarrow> bool" where
  "is_json_space c \<longleftrightarrow> c = 0x20 \<or> c = 0x09 \<or> c = 0x0A \<or> c = 0x0D"

definition skip_space :: "jsstring \<Rightarrow> jsstring" where
  "skip_space s = dropWhile is_json_space s"

definition hex_value :: "cu \<Rightarrow> nat option" where
  "hex_value c =
     (if 0x30 \<le> c \<and> c \<le> 0x39 then Some (unat c - 0x30)
      else if 0x61 \<le> c \<and> c \<le> 0x66 then Some (unat c - 0x61 + 10)
      else if 0x41 \<le> c \<and> c \<le> 0x46 then Some (unat c - 0x41 + 10)
      else None)"

definition hex4_value :: "cu \<Rightarrow> cu \<Rightarrow> cu \<Rightarrow> cu \<Rightarrow> cu option" where
  "hex4_value a b c d =
     (case (hex_value a, hex_value b, hex_value c, hex_value d) of
        (Some x, Some y, Some z, Some w) \<Rightarrow> Some (of_nat (((x * 16 + y) * 16 + z) * 16 + w))
      | _ \<Rightarrow> None)"

definition simple_escape :: "cu \<Rightarrow> cu option" where
  "simple_escape e =
     (if e = 0x22 then Some 0x22
      else if e = 0x5C then Some 0x5C
      else if e = 0x2F then Some 0x2F
      else if e = 0x62 then Some 0x08
      else if e = 0x66 then Some 0x0C
      else if e = 0x6E then Some 0x0A
      else if e = 0x72 then Some 0x0D
      else if e = 0x74 then Some 0x09
      else None)"

definition cons_char :: "cu \<Rightarrow> (jsstring \<times> jsstring) option \<Rightarrow> (jsstring \<times> jsstring) option" where
  "cons_char c r = map_option (\<lambda>(t, rest). (c # t, rest)) r"

text \<open>
  A string after its opening quote: the decoded text and the input after the closing
  quote. A raw code unit below U+0020 is a syntax error.
\<close>

fun parse_string :: "jsstring \<Rightarrow> (jsstring \<times> jsstring) option" where
  "parse_string [] = None"
| "parse_string (c # s) =
     (if c = 0x22 then Some ([], s)
      else if c = 0x5C then
        (case s of
           [] \<Rightarrow> None
         | e # s1 \<Rightarrow>
             if e = 0x75 then
               (case s1 of
                  a # b # c' # d # s2 \<Rightarrow>
                    (case hex4_value a b c' d of
                       None \<Rightarrow> None
                     | Some u \<Rightarrow> cons_char u (parse_string s2))
                | _ \<Rightarrow> None)
             else
               (case simple_escape e of
                  None \<Rightarrow> None
                | Some u \<Rightarrow> cons_char u (parse_string s1)))
      else if c < 0x20 then None
      else cons_char c (parse_string s))"

text \<open>
  A number: an optional minus, \<open>0\<close> or a digit string without a leading zero, an
  optional fraction, an optional exponent. The lexeme and the input after it.
\<close>

definition parse_digits :: "jsstring \<Rightarrow> (jsstring \<times> jsstring) option" where
  "parse_digits s =
     (let ds = takeWhile is_digit s in
      if ds = [] then None else Some (ds, dropWhile is_digit s))"

definition parse_fraction :: "jsstring \<Rightarrow> (jsstring \<times> jsstring) option" where
  "parse_fraction s =
     (case s of
        c # r \<Rightarrow>
          if c = 0x2E then map_option (\<lambda>(ds, rest). (c # ds, rest)) (parse_digits r)
          else Some ([], s)
      | [] \<Rightarrow> Some ([], s))"

definition parse_exponent :: "jsstring \<Rightarrow> (jsstring \<times> jsstring) option" where
  "parse_exponent s =
     (case s of
        c # r \<Rightarrow>
          if c = 0x65 \<or> c = 0x45 then
            (case r of
               g # r' \<Rightarrow>
                 if g = 0x2B \<or> g = 0x2D
                 then map_option (\<lambda>(ds, rest). (c # g # ds, rest)) (parse_digits r')
                 else map_option (\<lambda>(ds, rest). (c # ds, rest)) (parse_digits r)
             | [] \<Rightarrow> None)
          else Some ([], s)
      | [] \<Rightarrow> Some ([], s))"

definition parse_unsigned :: "jsstring \<Rightarrow> (jsstring \<times> jsstring) option" where
  "parse_unsigned s =
     (case parse_digits s of
        None \<Rightarrow> None
      | Some (ip, r) \<Rightarrow>
          if hd ip = 0x30 \<and> 1 < length ip then None
          else (case parse_fraction r of
                  None \<Rightarrow> None
                | Some (fp, r1) \<Rightarrow>
                    (case parse_exponent r1 of
                       None \<Rightarrow> None
                     | Some (ep, r2) \<Rightarrow> Some (ip @ fp @ ep, r2))))"

definition parse_number :: "jsstring \<Rightarrow> (jsstring \<times> jsstring) option" where
  "parse_number s =
     (case s of
        c # r \<Rightarrow>
          if c = 0x2D then map_option (\<lambda>(n, rest). (c # n, rest)) (parse_unsigned r)
          else parse_unsigned s
      | [] \<Rightarrow> None)"

text \<open>
  Array indices are enumerated first, in ascending order, then the other keys in the
  order of their creation. \<open>obj_put\<close> is \<open>CreateDataProperty\<close>: a key that exists
  keeps its place and takes the new value.
\<close>

definition decimal_value :: "jsstring \<Rightarrow> nat" where
  "decimal_value k = foldl (\<lambda>a c. 10 * a + (unat c - 0x30)) 0 k"

definition is_array_index :: "jsstring \<Rightarrow> bool" where
  "is_array_index k \<longleftrightarrow>
     k \<noteq> [] \<and> list_all is_digit k \<and> (k = [0x30] \<or> hd k \<noteq> 0x30) \<and>
     decimal_value k < 4294967295"

fun insert_index :: "jsstring \<Rightarrow> json \<Rightarrow> (jsstring \<times> json) list \<Rightarrow> (jsstring \<times> json) list" where
  "insert_index k v [] = [(k, v)]"
| "insert_index k v (kv # kvs) =
     (if is_array_index (fst kv) \<and> decimal_value (fst kv) < decimal_value k
      then kv # insert_index k v kvs
      else (k, v) # kv # kvs)"

definition obj_put :: "jsstring \<Rightarrow> json \<Rightarrow> (jsstring \<times> json) list \<Rightarrow> (jsstring \<times> json) list" where
  "obj_put k v kvs =
     (if k \<in> set (map fst kvs) then map (\<lambda>kv. if fst kv = k then (k, v) else kv) kvs
      else if is_array_index k then insert_index k v kvs
      else kvs @ [(k, v)])"

text \<open>A string, a literal or a number, at the first code unit of the token.\<close>

definition parse_scalar :: "jsstring \<Rightarrow> (json \<times> jsstring) option" where
  "parse_scalar s =
     (case s of
        [] \<Rightarrow> None
      | c # r \<Rightarrow>
          if c = 0x22 then map_option (\<lambda>(t, rest). (JStr t, rest)) (parse_string r)
          else if starts_with s (js ''true'') then Some (JBool True, drop 4 s)
          else if starts_with s (js ''false'') then Some (JBool False, drop 5 s)
          else if starts_with s (js ''null'') then Some (JNull, drop 4 s)
          else map_option (\<lambda>(n, rest). (JNum n, rest)) (parse_number s))"

text \<open>
  The parser descends with fuel; \<open>JSON_parse\<close> gives it more than any input can use.
  \<open>parse_value\<close> reads one value after optional white space; \<open>parse_elements\<close> reads
  the elements of an array after \<open>[\<close>, \<open>parse_members\<close> the members of an object
  after \<open>{\<close>, each up to the closing bracket.
\<close>

fun parse_value :: "nat \<Rightarrow> jsstring \<Rightarrow> (json \<times> jsstring) option"
  and parse_elements :: "nat \<Rightarrow> json list \<Rightarrow> jsstring \<Rightarrow> (json \<times> jsstring) option"
  and parse_members :: "nat \<Rightarrow> (jsstring \<times> json) list \<Rightarrow> jsstring \<Rightarrow> (json \<times> jsstring) option"
where
  "parse_value 0 s = None"
| "parse_value (Suc n) s =
     (case skip_space s of
        [] \<Rightarrow> None
      | c # r \<Rightarrow>
          if c = 0x7B then
            (case skip_space r of
               [] \<Rightarrow> None
             | d # r' \<Rightarrow> if d = 0x7D then Some (JObj [], r') else parse_members n [] (d # r'))
          else if c = 0x5B then
            (case skip_space r of
               [] \<Rightarrow> None
             | d # r' \<Rightarrow> if d = 0x5D then Some (JArr [], r') else parse_elements n [] (d # r'))
          else parse_scalar (c # r))"
| "parse_elements 0 acc s = None"
| "parse_elements (Suc n) acc s =
     (case parse_value n s of
        None \<Rightarrow> None
      | Some (v, r) \<Rightarrow>
          (case skip_space r of
             [] \<Rightarrow> None
           | c # r' \<Rightarrow>
               if c = 0x2C then parse_elements n (acc @ [v]) r'
               else if c = 0x5D then Some (JArr (acc @ [v]), r')
               else None))"
| "parse_members 0 acc s = None"
| "parse_members (Suc n) acc s =
     (case skip_space s of
        [] \<Rightarrow> None
      | q # r \<Rightarrow>
          if q = 0x22 then
            (case parse_string r of
               None \<Rightarrow> None
             | Some (k, r1) \<Rightarrow>
                 (case skip_space r1 of
                    [] \<Rightarrow> None
                  | c # r2 \<Rightarrow>
                      if c = 0x3A then
                        (case parse_value n r2 of
                           None \<Rightarrow> None
                         | Some (v, r3) \<Rightarrow>
                             (case skip_space r3 of
                                [] \<Rightarrow> None
                              | d # r4 \<Rightarrow>
                                  if d = 0x2C then parse_members n (obj_put k v acc) r4
                                  else if d = 0x7D then Some (JObj (obj_put k v acc), r4)
                                  else None))
                      else None))
          else None)"

definition JSON_parse :: "jsstring \<Rightarrow> error + json" where
  "JSON_parse s =
     (case parse_value (2 * length s + 1) s of
        None \<Rightarrow> Inl SyntaxError
      | Some (v, r) \<Rightarrow> if skip_space r = [] then Inr v else Inl SyntaxError)"

subsection \<open>LocalStorage\<close>

text \<open>
  The storage area: its items, how many code units the browser accepts for a value
  written now, and whether access is denied altogether. \<open>getItem\<close> returns \<open>null\<close>
  (\<open>None\<close>) for a missing key; \<open>setItem\<close> stores the value or throws and changes
  nothing.
\<close>

record storage =
  items :: "jsstring \<Rightarrow> jsstring option"
  quota :: nat
  denied :: bool

definition getItem :: "storage \<Rightarrow> jsstring \<Rightarrow> error + jsstring option" where
  "getItem st k = (if denied st then Inl SecurityError else Inr (items st k))"

definition setItem :: "storage \<Rightarrow> jsstring \<Rightarrow> jsstring \<Rightarrow> error + storage" where
  "setItem st k v =
     (if denied st then Inl SecurityError
      else if quota st < length v then Inl QuotaExceededError
      else Inr (st\<lparr>items := (items st)(k \<mapsto> v)\<rparr>))"

definition STORAGE_KEY :: jsstring where
  "STORAGE_KEY = js ''leadManagementLeads''"

text \<open>
  \<open>getLeads\<close>: a missing item and the empty string are falsy and give the empty array;
  whatever is thrown inside \<open>try\<close> gives the empty array too (the log is left out).
\<close>

definition getLeads :: "storage \<Rightarrow> error + json" where
  "getLeads st =
     try_catch
       (then_do (getItem st STORAGE_KEY) (\<lambda>data.
          case data of
            None \<Rightarrow> Inr (JArr [])
          | Some text \<Rightarrow> if text \<noteq> [] then JSON_parse text else Inr (JArr [])))
       (\<lambda>e. Inr (JArr []))"

definition saveLeads :: "runtime \<Rightarrow> storage \<Rightarrow> json \<Rightarrow> error + storage" where
  "saveLeads rt st leads =
     try_catch (setItem st STORAGE_KEY (JSON_stringify rt leads)) (\<lambda>e. Inr st)"

subsection \<open>The filter\<close>

record filters =
  search :: jsstring
  status :: jsstring

text \<open>\<open>lead.name && lead.name.toLowerCase().includes(filters.search)\<close>, for either field.\<close>

definition matchesField :: "runtime \<Rightarrow> json \<Rightarrow> jsstring \<Rightarrow> jsstring \<Rightarrow> error + bool" where
  "matchesField rt lead key term =
     then_do (property lead key) (\<lambda>v.
     if truthy rt v then
       (case v of
          Some (JStr s) \<Rightarrow> Inr (js_includes (toLowerCase rt s) term)
        | _ \<Rightarrow> Inl TypeError)
     else Inr False)"

definition matchesSearch :: "runtime \<Rightarrow> filters \<Rightarrow> json \<Rightarrow> error + bool" where
  "matchesSearch rt fs lead =
     (if search fs = [] then Inr True
      else then_do (matchesField rt lead (js ''name'') (search fs)) (\<lambda>byName.
           if byName then Inr True else matchesField rt lead (js ''phone'') (search fs)))"

definition matchesStatus :: "filters \<Rightarrow> json \<Rightarrow> error + bool" where
  "matchesStatus fs lead =
     (if status fs = [] then Inr True
      else then_do (property lead (js ''status'')) (\<lambda>v. Inr (v = Some (JStr (status fs)))))"

definition filterLeads :: "runtime \<Rightarrow> json \<Rightarrow> filters \<Rightarrow> error + json" where
  "filterLeads rt leads fs =
     then_do (as_array leads) (\<lambda>xs.
     then_do (array_filter (\<lambda>lead.
                then_do (matchesSearch rt fs lead) (\<lambda>ms.
                then_do (matchesStatus fs lead) (\<lambda>mt.
                Inr (ms \<and> mt)))) xs) (\<lambda>ys.
     Inr (JArr ys)))"

subsection \<open>Adding, updating and deleting\<close>

text \<open>
  \<open>generateId\<close> reads the clock and the random source: \<open>Date.now()\<close> is a whole
  number of milliseconds, of at most sixteen digits, which string concatenation prints in
  decimal; \<open>Math.random().toString(36)\<close> is taken as the text it is, of which
  \<open>slice(2, 9)\<close> keeps at most seven code units after the first two.
\<close>

record entropy =
  date_now :: int
  random_base36 :: jsstring

function decimal :: "nat \<Rightarrow> jsstring" where
  "decimal n = (if n < 10 then [0x30 + of_nat n] else decimal (n div 10) @ [0x30 + of_nat (n mod 10)])"
  by pat_completeness auto
termination
  by (relation "measure id") auto

definition integer_text :: "int \<Rightarrow> jsstring" where
  "integer_text i = (if i < 0 then 0x2D # decimal (nat (- i)) else decimal (nat i))"

definition generateId :: "entropy \<Rightarrow> jsstring" where
  "generateId e =
     js ''lead_'' @ integer_text (date_now e) @ js ''_'' @ take 7 (drop 2 (random_base36 e))"

text \<open>
  The state of the page: the storage area, the form, the module variable
  \<open>deleteTargetId\<close> (\<open>None\<close> is \<open>null\<close>) and the confirmation dialog.
\<close>

record app =
  localStorage :: storage
  leadForm :: form
  deleteTargetId :: "jsstring option"
  modalVisible :: bool
  modalMessage :: jsstring

text \<open>
  The handlers return the state they leave, or the exception that ended them. Their last
  call, \<open>renderLeads\<close>, changes no cell of this state and is left out.
  \<open>handleDeleteClick\<close> receives the \<open>data-id\<close> attribute of the button.
\<close>

definition handleDeleteClick :: "jsstring option \<Rightarrow> app \<Rightarrow> app" where
  "handleDeleteClick attr st =
     (case attr of
        None \<Rightarrow> st
      | Some i \<Rightarrow>
          if i = [] then st
          else st\<lparr>deleteTargetId := Some i,
                  modalMessage := js ''Are you sure you want to delete this lead?'',
                  modalVisible := True\<rparr>)"

definition confirmDelete :: "runtime \<Rightarrow> app \<Rightarrow> error + app" where
  "confirmDelete rt st =
     (case deleteTargetId st of
        None \<Rightarrow> Inr (st\<lparr>modalVisible := False\<rparr>)
      | Some target \<Rightarrow>
          if target = [] then Inr (st\<lparr>modalVisible := False\<rparr>)
          else
            then_do (getLeads (localStorage st)) (\<lambda>loaded.
            then_do (as_array loaded) (\<lambda>xs.
            then_do (array_filter (\<lambda>l.
                       then_do (property l (js ''id'')) (\<lambda>i.
                       Inr (i \<noteq> Some (JStr target)))) xs) (\<lambda>leads.
            then_do (saveLeads rt (localStorage st) (JArr leads)) (\<lambda>stored.
            Inr (st\<lparr>localStorage := stored, deleteTargetId := None, modalVisible := False,
                    leadForm := resetForm (leadForm st)\<rparr>))))))"

definition cancelModal :: "app \<Rightarrow> app" where
  "cancelModal st = st\<lparr>deleteTargetId := None, modalVisible := False\<rparr>"

text \<open>
  \<open>handleFormSubmit\<close>. The update writes \<open>{id, name, phone, source, status}\<close> at the
  index found; the insertion appends the payload \<open>{name, phone, source, status}\<close> to
  which \<open>id\<close> was added last.
\<close>

definition handleFormSubmit :: "runtime \<Rightarrow> entropy \<Rightarrow> app \<Rightarrow> error + app" where
  "handleFormSubmit rt e st =
     (let (ok, f) = validateForm (leadForm st) in
      if \<not> ok then Inr (st\<lparr>leadForm := f\<rparr>)
      else
        let ident = trim (leadId f);
            name = JStr (trim (leadName f));
            phone = JStr (trim (leadPhone f));
            source = JStr (trim (leadSource f));
            stat = JStr (trim (leadStatus f))
        in
        then_do (getLeads (localStorage st)) (\<lambda>leads.
        if ident \<noteq> [] then
          then_do (as_array leads) (\<lambda>xs.
          then_do (array_findIndex (\<lambda>l.
                     then_do (property l (js ''id'')) (\<lambda>i.
                     Inr (i = Some (JStr ident)))) xs) (\<lambda>index.
          case index of
            Some i \<Rightarrow>
              then_do (saveLeads rt (localStorage st)
                         (JArr (xs[i := JObj [(js ''id'', JStr ident), (js ''name'', name),
                                              (js ''phone'', phone), (js ''source'', source),
                                              (js ''status'', stat)]]))) (\<lambda>stored.
              Inr (st\<lparr>localStorage := stored, leadForm := resetForm f\<rparr>))
          | None \<Rightarrow> Inr (st\<lparr>leadForm := resetForm f\<rparr>)))
        else
          let payload = JObj [(js ''name'', name), (js ''phone'', phone), (js ''source'', source),
                              (js ''status'', stat), (js ''id'', JStr (generateId e))]
          in
          then_do (as_array leads) (\<lambda>xs.
          then_do (saveLeads rt (localStorage st) (JArr (xs @ [payload]))) (\<lambda>stored.
          Inr (st\<lparr>localStorage := stored, leadForm := resetForm f\<rparr>)))))"

text \<open>
  A runtime for evaluating examples: it lower-cases the letters A to Z and leaves every
  other code unit alone, as \<open>toLowerCase\<close> does on ASCII text; a number lexeme is
  truthy when it has a digit other than 0 before the exponent, and is printed as it was
  read.
\<close>

definition ascii_lower :: "cu \<Rightarrow> cu" where
  "ascii_lower c = (if 0x41 \<le> c \<and> c \<le> 0x5A then c + 0x20 else c)"

definition example_runtime :: runtime where
  "example_runtime =
     \<lparr>toLowerCase = map ascii_lower,
      numberToBoolean = (\<lambda>n. list_ex (\<lambda>c. 0x31 \<le> c \<and> c \<le> 0x39)
                                  (takeWhile (\<lambda>c. c \<noteq> 0x65 \<and> c \<noteq> 0x45) n)),
      numberToString = (\<lambda>n. n)\<rparr>"

text \<open>
  Two leads for the examples: one as the insertion writes it, with \<open>id\<close> last, one
  as the update writes it, with \<open>id\<close> first.
\<close>

definition lead_jo :: json where
  "lead_jo =
     JObj [(js ''name'', JStr (js ''Jo Smith'')), (js ''phone'', JStr (js ''555-1234567'')),
           (js ''source'', JStr (js ''web'')), (js ''status'', JStr (js ''new'')),
           (js ''id'', JStr (js ''lead_1700000000000_4fzyo82''))]"

definition lead_ann :: json where
  "lead_ann =
     JObj [(js ''id'', JStr (js ''x'')), (js ''name'', JStr (js ''Ann Lee'')),
           (js ''phone'', JStr (js ''555-9999999'')), (js ''source'', JStr (js ''referral'')),
           (js ''status'', JStr (js ''lost''))]"

text \<open>
  Storage areas for the examples: one that holds a list of leads and has room for five
  million code units, one that is full, one that is blocked, and one whose item was cut
  short. A record whose name alone has five million code units. A blank form, and a page
  with its dialog closed.
\<close>

definition example_storage :: "json list \<Rightarrow> storage" where
  "example_storage L =
     \<lparr>items = [STORAGE_KEY \<mapsto> JSON_stringify example_runtime (JArr L)],
      quota = 5000000, denied = False\<rparr>"

definition full_storage :: storage where
  "full_storage = \<lparr>items = Map.empty, quota = 0, denied = False\<rparr>"

definition blocked_storage :: storage where
  "blocked_storage = \<lparr>items = Map.empty, quota = 5000000, denied = True\<rparr>"

definition big_lead :: json where
  "big_lead = JObj [(js ''name'', JStr (replicate 5000000 0x61))]"

definition torn_storage :: storage where
  "torn_storage = \<lparr>items = [STORAGE_KEY \<mapsto> js ''[{''], quota = 5000000, denied = False\<rparr>"

definition blank_form :: form where
  "blank_form =
     \<lparr>leadId = [], leadName = [], leadPhone = [], leadSource = [], leadStatus = [],
      formTitle = js ''Add New Lead'', submitLabel = js ''Add Lead'', cancelShown = False,
      nameError = [], phoneError = [], sourceError = [], statusError = [],
      nameInvalid = False, phoneInvalid = False, sourceInvalid = False, statusInvalid = False\<rparr>"

definition example_app :: "json list \<Rightarrow> form \<Rightarrow> app" where
  "example_app L f =
     \<lparr>localStorage = example_storage L, leadForm = f, deleteTargetId = None,
      modalVisible = False, modalMessage = []\<rparr>"

text \<open>
  Forms for the examples: the form as an edit of the lead \<open>x\<close> leaves it, with a new
  phone number, and the form filled in for a new lead. A clock and a random draw. A second
  record with the id \<open>x\<close>.
\<close>

definition edit_form :: form where
  "edit_form =
     blank_form\<lparr>leadId := js ''x'', leadName := js ''Ann Lee'', leadPhone := js '' 555-0000000 '',
                leadSource := js ''referral'', leadStatus := js ''lost'',
                formTitle := js ''Edit Lead'', submitLabel := js ''Update Lead'',
                cancelShown := True\<rparr>"

definition new_form :: form where
  "new_form =
     blank_form\<lparr>leadName := js ''Al Poe'', leadPhone := js ''(555) 765-4321'',
                leadSource := js ''referral'', leadStatus := js ''new''\<rparr>"

definition example_entropy :: entropy where
  "example_entropy = \<lparr>date_now = 1700000000000, random_base36 = js ''0.4fzyo82mvyr''\<rparr>"

definition lead_ann_twin :: json where
  "lead_ann_twin =
     JObj [(js ''id'', JStr (js ''x'')), (js ''name'', JStr (js ''Ann Lee (copy)'')),
           (js ''phone'', JStr (js ''555-9999999'')), (js ''source'', JStr (js ''referral'')),
           (js ''status'', JStr (js ''lost''))]"

section \<open>Specification vocabulary\<close>

text \<open>
  A lead, as \<open>getLeads\<close> declares it: an object with exactly the five properties
  \<open>id\<close>, \<open>name\<close>, \<open>phone\<close>, \<open>source\<close> and \<open>status\<close>, each a string.
\<close>

definition lead_keys :: "jsstring list" where
  "lead_keys = [js ''id'', js ''name'', js ''phone'', js ''source'', js ''status'']"

fun is_string :: "json \<Rightarrow> bool" where
  "is_string (JStr s) = True"
| "is_string v = False"

fun is_lead :: "json \<Rightarrow> bool" where
  "is_lead (JObj kvs) =
     (distinct (map fst kvs) \<and> list_all (\<lambda>k. k \<in> set lead_keys) (map fst kvs) \<and>
      list_all (\<lambda>k. k \<in> set (map fst kvs)) lead_keys \<and> list_all (\<lambda>kv. is_string (snd kv)) kvs)"
| "is_lead v = False"

text \<open>The text of a field of a lead.\<close>

definition text_of :: "json \<Rightarrow> jsstring \<Rightarrow> jsstring" where
  "text_of v k = (case property v k of Inr (Some (JStr s)) \<Rightarrow> s | _ \<Rightarrow> [])"

text \<open>
  \<open>s\<close> contains \<open>t\<close> as a case-insensitive substring: lower-cased, \<open>t\<close> is a
  contiguous part of \<open>s\<close>.
\<close>

definition ci_contains :: "runtime \<Rightarrow> jsstring \<Rightarrow> jsstring \<Rightarrow> bool" where
  "ci_contains rt s t \<longleftrightarrow> sublist (toLowerCase rt t) (toLowerCase rt s)"

text \<open>The filter predicate as the specification words it.\<close>

definition lead_matches :: "runtime \<Rightarrow> filters \<Rightarrow> json \<Rightarrow> bool" where
  "lead_matches rt fs lead \<longleftrightarrow>
     (search fs = [] \<or> ci_contains rt (text_of lead (js ''name'')) (search fs) \<or>
        ci_contains rt (text_of lead (js ''phone'')) (search fs)) \<and>
     (status fs = [] \<or> text_of lead (js ''status'') = status fs)"

text \<open>
  A flat record of string fields: an object whose keys are distinct, none of them an array
  index, and whose values are strings. Every lead is one.
\<close>

fun flat_record :: "json \<Rightarrow> bool" where
  "flat_record (JObj kvs) =
     (distinct (map fst kvs) \<and>
      list_all (\<lambda>kv. \<not> is_array_index (fst kv) \<and> is_string (snd kv)) kvs)"
| "flat_record v = False"

text \<open>The text of one member of an object, \<open>"key":value\<close>.\<close>

definition member_text :: "runtime \<Rightarrow> jsstring \<times> json \<Rightarrow> jsstring" where
  "member_text rt kv = quote (fst kv) @ [0x3A] @ JSON_stringify rt (snd kv)"

text \<open>The id of a lead.\<close>

definition id_of :: "json \<Rightarrow> jsstring" where
  "id_of lead = text_of lead (js ''id'')"

text \<open>
  The storage takes a write when access is not denied and the text fits.
  \<open>stored\<close> is the storage after \<open>Store.save\<close> as the specification words it: the
  serialised collection is written, or, on a write failure, nothing changes.
\<close>

definition accepts :: "storage \<Rightarrow> jsstring \<Rightarrow> bool" where
  "accepts st t \<longleftrightarrow> \<not> denied st \<and> length t \<le> quota st"

definition stored :: "runtime \<Rightarrow> storage \<Rightarrow> json \<Rightarrow> storage" where
  "stored rt st v =
     (if accepts st (JSON_stringify rt v)
      then st\<lparr>items := (items st)(STORAGE_KEY \<mapsto> JSON_stringify rt v)\<rparr>
      else st)"

text \<open>
  The two object literals of \<open>handleFormSubmit\<close>: the record an update writes and
  the record an insertion appends.
\<close>

definition updated_lead :: "form \<Rightarrow> json" where
  "updated_lead f =
     JObj [(js ''id'', JStr (trim (leadId f))), (js ''name'', JStr (trim (leadName f))),
           (js ''phone'', JStr (trim (leadPhone f))), (js ''source'', JStr (trim (leadSource f))),
           (js ''status'', JStr (trim (leadStatus f)))]"

definition added_lead :: "entropy \<Rightarrow> form \<Rightarrow> json" where
  "added_lead e f =
     JObj [(js ''name'', JStr (trim (leadName f))), (js ''phone'', JStr (trim (leadPhone f))),
           (js ''source'', JStr (trim (leadSource f))), (js ''status'', JStr (trim (leadStatus f))),
           (js ''id'', JStr (generateId e))]"

text \<open>Replacing the first element that satisfies \<open>p\<close>, at its position.\<close>

fun replace_first :: "('a \<Rightarrow> bool) \<Rightarrow> 'a \<Rightarrow> 'a list \<Rightarrow> 'a list" where
  "replace_first p y [] = []"
| "replace_first p y (x # xs) = (if p x then y # xs else x # replace_first p y xs)"

text \<open>
  The pattern as the specification words it: only digits, white space, hyphen,
  parentheses, plus and period, and a length between 7 and 20.
\<close>

definition phone_char :: "cu \<Rightarrow> bool" where
  "phone_char c \<longleftrightarrow>
     is_digit c \<or> is_white_space c \<or> c = 0x2D \<or> c = 0x28 \<or> c = 0x29 \<or> c = 0x2B \<or> c = 0x2E"

definition phone_pattern :: "jsstring \<Rightarrow> bool" where
  "phone_pattern s \<longleftrightarrow> 7 \<le> length s \<and> length s \<le> 20 \<and> list_all phone_char s"

section \<open>Exceptions and strings\<close>

lemma starts_with_prefix: "starts_with s t = prefix t s"
  by (induction s t rule: starts_with.induct) auto

lemma js_includes_sublist: "js_includes s t = sublist t s"
  by (induction s) (auto simp: starts_with_prefix sublist_Cons_right)

lemma then_do_Inr [simp]: "then_do (Inr x) k = k x"
  by (simp add: then_do_def)

lemma then_do_Inl [simp]: "then_do (Inl e) k = Inl e"
  by (simp add: then_do_def)

lemma array_filter_total:
  "(\<And>x. x \<in> set xs \<Longrightarrow> p x = Inr (q x)) \<Longrightarrow> array_filter p xs = Inr (filter q xs)"
  by (induction xs) auto


section \<open>\<open>JSON.parse\<close> reads back what \<open>JSON.stringify\<close> wrote\<close>

subsection \<open>Strings\<close>

lemma hex_value_hex_digit: "n < 16 \<Longrightarrow> hex_value (hex_digit n) = Some n"
  by (simp add: hex_value_def hex_digit_def word_le_nat_alt unat_word_ariths unat_of_nat)

lemma hex_digits_value:
  fixes n :: nat
  shows "((n div 4096 * 16 + n div 256 mod 16) * 16 + n div 16 mod 16) * 16 + n mod 16 = n"
proof -
  have a: "n div 256 = (n div 16) div 16" by (simp add: div_mult2_eq)
  have b: "n div 4096 = ((n div 16) div 16) div 16" by (simp add: div_mult2_eq)
  show ?thesis unfolding a b by (simp add: algebra_simps)
qed

lemma unat_cu_bound: "unat (c :: cu) div 4096 < 16"
proof -
  have "unat c < 65536" using unsigned_less [of c] by simp
  then show ?thesis by simp
qed

lemma hex4_value_escape:
  "hex4_value (hex_digit (unat c div 4096)) (hex_digit (unat c div 256 mod 16))
     (hex_digit (unat c div 16 mod 16)) (hex_digit (unat c mod 16)) = Some c"
proof -
  have "(of_nat (((unat c div 4096 * 16 + unat c div 256 mod 16) * 16 + unat c div 16 mod 16) * 16
          + unat c mod 16) :: cu) = of_nat (unat c)"
    by (simp only: hex_digits_value)
  then show ?thesis
    by (simp add: hex4_value_def hex_value_hex_digit unat_cu_bound del: of_nat_add of_nat_mult)
qed

lemma parse_string_escape:
  "parse_string (unicode_escape c @ s) = cons_char c (parse_string s)"
  by (simp add: unicode_escape_def hex4_value_escape)

lemma parse_string_plain:
  "c \<noteq> 0x22 \<Longrightarrow> c \<noteq> 0x5C \<Longrightarrow> \<not> c < 0x20 \<Longrightarrow>
   parse_string (c # s) = cons_char c (parse_string s)"
  by simp

lemma low_surrogate_plain:
  "is_low_surrogate d \<Longrightarrow> d \<noteq> 0x22 \<and> d \<noteq> 0x5C \<and> \<not> d < 0x20"
  by (auto simp: is_low_surrogate_def word_le_nat_alt word_less_nat_alt)

lemma parse_string_close: "parse_string (0x22 # rest) = Some ([], rest)"
  by simp

lemma cons_char_Some: "cons_char c (Some (t, rest)) = Some (c # t, rest)"
  by (simp add: cons_char_def)

lemma parse_string_quote_body:
  "parse_string (quote_body s @ 0x22 # rest) = Some (s, rest)"
proof (induction s rule: quote_body.induct)
  case 1
  show ?case by simp
next
  case (2 c s)
  consider (short) "c = 0x08 \<or> c = 0x09 \<or> c = 0x0A \<or> c = 0x0C \<or> c = 0x0D \<or> c = 0x22 \<or> c = 0x5C"
    | (control) "\<not> (c = 0x08 \<or> c = 0x09 \<or> c = 0x0A \<or> c = 0x0C \<or> c = 0x0D \<or> c = 0x22 \<or> c = 0x5C)"
        "c < 0x20"
    | (high) "\<not> (c = 0x08 \<or> c = 0x09 \<or> c = 0x0A \<or> c = 0x0C \<or> c = 0x0D \<or> c = 0x22 \<or> c = 0x5C)"
        "\<not> c < 0x20" "is_high_surrogate c"
    | (low) "\<not> (c = 0x08 \<or> c = 0x09 \<or> c = 0x0A \<or> c = 0x0C \<or> c = 0x0D \<or> c = 0x22 \<or> c = 0x5C)"
        "\<not> c < 0x20" "\<not> is_high_surrogate c" "is_low_surrogate c"
    | (plain) "\<not> (c = 0x08 \<or> c = 0x09 \<or> c = 0x0A \<or> c = 0x0C \<or> c = 0x0D \<or> c = 0x22 \<or> c = 0x5C)"
        "\<not> c < 0x20" "\<not> is_high_surrogate c" "\<not> is_low_surrogate c"
    by blast
  then show ?case
  proof cases
    case short
    with "2.IH"(1-7) show ?thesis
      by (auto simp: simple_escape_def cons_char_Some)
  next
    case control
    with "2.IH"(8) show ?thesis
      by (simp add: parse_string_escape parse_string_close cons_char_Some del: parse_string.simps)
  next
    case high
    show ?thesis
    proof (cases s)
      case Nil
      with high show ?thesis
        by (simp add: parse_string_escape parse_string_close cons_char_Some del: parse_string.simps)
    next
      case (Cons d s')
      show ?thesis
      proof (cases "is_low_surrogate d")
        case True
        have "parse_string (quote_body s' @ 0x22 # rest) = Some (s', rest)"
          using "2.IH"(9) high Cons True by simp
        then show ?thesis
          using high Cons True low_surrogate_plain [OF True]
          by (simp add: cons_char_Some)
      next
        case False
        have "parse_string (quote_body s @ 0x22 # rest) = Some (s, rest)"
          using "2.IH"(10) high Cons False by simp
        then show ?thesis
          using high Cons False
          by (simp add: parse_string_escape parse_string_close cons_char_Some del: parse_string.simps)
      qed
    qed
  next
    case low
    with "2.IH"(11) show ?thesis
      by (simp add: parse_string_escape parse_string_close cons_char_Some del: parse_string.simps)
  next
    case plain
    with "2.IH"(12) show ?thesis
      by (simp add: cons_char_Some)
  qed
qed

lemma parse_string_quote: "parse_string (tl (quote s) @ rest) = Some (s, rest)"
  by (simp add: quote_def parse_string_quote_body)

subsection \<open>Tokens\<close>

lemma skip_space_token: "\<not> is_json_space c \<Longrightarrow> skip_space (c # s) = c # s"
  by (simp add: skip_space_def)

lemma parse_value_string:
  "parse_string r = Some (t, rest) \<Longrightarrow> parse_value (Suc n) (0x22 # r) = Some (JStr t, rest)"
  by (simp add: skip_space_def is_json_space_def parse_scalar_def)

lemma parse_value_object:
  "\<not> is_json_space d \<Longrightarrow>
   parse_value (Suc n) (0x7B # d # r) =
     (if d = 0x7D then Some (JObj [], r) else parse_members n [] (d # r))"
  by (simp add: skip_space_def is_json_space_def)

lemma parse_value_array:
  "\<not> is_json_space d \<Longrightarrow>
   parse_value (Suc n) (0x5B # d # r) =
     (if d = 0x5D then Some (JArr [], r) else parse_elements n [] (d # r))"
  by (simp add: skip_space_def is_json_space_def)

lemma parse_elements_step:
  "parse_value n s = Some (v, c # r) \<Longrightarrow> \<not> is_json_space c \<Longrightarrow>
   parse_elements (Suc n) acc s =
     (if c = 0x2C then parse_elements n (acc @ [v]) r
      else if c = 0x5D then Some (JArr (acc @ [v]), r) else None)"
  by (simp add: skip_space_def)

lemma parse_members_step:
  "parse_string r = Some (k, 0x3A # r2) \<Longrightarrow> parse_value n r2 = Some (v, d # r4) \<Longrightarrow>
   \<not> is_json_space d \<Longrightarrow>
   parse_members (Suc n) acc (0x22 # r) =
     (if d = 0x2C then parse_members n (obj_put k v acc) r4
      else if d = 0x7D then Some (JObj (obj_put k v acc), r4) else None)"
  by (simp add: skip_space_def is_json_space_def)

declare parse_value.simps [simp del] parse_elements.simps [simp del] parse_members.simps [simp del]

subsection \<open>Flat records and arrays of them\<close>


lemma join_with_Cons:
  "join_with sep (x # xs) = (if xs = [] then x else x @ sep # join_with sep xs)"
  by (cases xs) simp_all

lemma obj_put_fresh:
  "k \<notin> set (map fst kvs) \<Longrightarrow> \<not> is_array_index k \<Longrightarrow> obj_put k v kvs = kvs @ [(k, v)]"
  by (simp add: obj_put_def)

lemma quote_Cons: "quote s = 0x22 # quote_body s @ [0x22]"
  by (simp add: quote_def)

lemma JSON_stringify_JObj:
  "JSON_stringify rt (JObj kvs) = 0x7B # join_with 0x2C (map (member_text rt) kvs) @ [0x7D]"
  by (simp add: member_text_def [abs_def] comp_def)

lemma member_text_string: "member_text rt (k, JStr v) = 0x22 # quote_body k @ 0x22 # 0x3A # quote v"
  by (simp add: member_text_def quote_def)

lemma parse_value_quote:
  "0 < n \<Longrightarrow> parse_value n (quote v @ rest) = Some (JStr v, rest)"
  by (cases n) (simp_all add: quote_Cons parse_value_string parse_string_quote_body)

lemma parse_members_flat:
  assumes "kvs \<noteq> []"
    and "list_all (\<lambda>kv. \<not> is_array_index (fst kv) \<and> is_string (snd kv)) kvs"
    and "distinct (map fst (acc @ kvs))"
    and "length (join_with 0x2C (map (member_text rt) kvs)) < n"
  shows "parse_members n acc
           (join_with 0x2C (map (member_text rt) kvs) @ 0x7D # rest)
         = Some (JObj (acc @ kvs), rest)"
  using assms
proof (induction kvs arbitrary: acc n)
  case Nil
  then show ?case by simp
next
  case (Cons kv kvs)
  obtain k v where kv: "kv = (k, JStr v)"
    using Cons.prems(2) by (cases kv; cases "snd kv") auto
  obtain m where n: "n = Suc m" and m: "0 < m"
    using Cons.prems(4) by (cases n) (auto simp: kv join_with_Cons member_text_string split: if_splits)
  have fresh: "k \<notin> set (map fst acc)" "\<not> is_array_index k"
    using Cons.prems(2,3) by (auto simp: kv)
  obtain m' where m': "m = Suc m'" using m by (cases m) auto
  show ?case
  proof (cases "kvs = []")
    case True
    have ps: "parse_string (quote_body k @ 0x22 # 0x3A # quote v @ 0x7D # rest)
              = Some (k, 0x3A # quote v @ 0x7D # rest)"
      by (rule parse_string_quote_body)
    have pv: "parse_value m (quote v @ 0x7D # rest) = Some (JStr v, 0x7D # rest)"
      using m by (rule parse_value_quote)
    show ?thesis
      using parse_members_step [OF ps pv, of acc] fresh True
      by (simp add: n kv member_text_string is_json_space_def obj_put_fresh)
  next
    case False
    let ?more = "join_with 0x2C (map (member_text rt) kvs) @ 0x7D # rest"
    have ps: "parse_string (quote_body k @ 0x22 # 0x3A # quote v @ 0x2C # ?more)
              = Some (k, 0x3A # quote v @ 0x2C # ?more)"
      by (rule parse_string_quote_body)
    have pv: "parse_value m (quote v @ 0x2C # ?more) = Some (JStr v, 0x2C # ?more)"
      using m by (rule parse_value_quote)
    have ih: "parse_members m (acc @ [(k, JStr v)]) ?more = Some (JObj ((acc @ [(k, JStr v)]) @ kvs), rest)"
    proof (rule Cons.IH [OF False])
      show "list_all (\<lambda>kv. \<not> is_array_index (fst kv) \<and> is_string (snd kv)) kvs"
        using Cons.prems(2) by simp
      show "distinct (map fst ((acc @ [(k, JStr v)]) @ kvs))"
        using Cons.prems(3) by (simp add: kv)
      show "length (join_with 0x2C (map (member_text rt) kvs)) < m"
        using Cons.prems(4) False by (simp add: n kv join_with_Cons)
    qed
    show ?thesis
      using parse_members_step [OF ps pv, of acc] fresh False ih
      by (simp add: n kv member_text_string is_json_space_def obj_put_fresh join_with_Cons)
  qed
qed

lemma parse_value_flat:
  assumes "flat_record x" and "length (JSON_stringify rt x) \<le> n"
  shows "parse_value n (JSON_stringify rt x @ rest) = Some (x, rest)"
proof -
  obtain kvs where x: "x = JObj kvs" using assms(1) by (cases x) auto
  obtain m where n: "n = Suc m"
    using assms(2) by (cases n) (auto simp: x JSON_stringify_JObj simp del: JSON_stringify.simps)
  show ?thesis
  proof (cases kvs)
    case Nil
    then show ?thesis
      using parse_value_object [of "0x7D" m rest]
      by (simp add: x n JSON_stringify_JObj is_json_space_def del: JSON_stringify.simps)
  next
    case (Cons kv kvs')
    obtain k v where kv: "kv = (k, JStr v)"
      using assms(1) by (cases kv; cases "snd kv") (auto simp: x Cons)
    let ?members = "join_with 0x2C (map (member_text rt) kvs)"
    obtain t where t: "?members = 0x22 # t"
      by (cases "kvs' = []") (simp_all add: Cons kv join_with_Cons member_text_string)
    have "parse_members m [] (?members @ 0x7D # rest) = Some (JObj ([] @ kvs), rest)"
    proof (rule parse_members_flat)
      show "kvs \<noteq> []" by (simp add: Cons)
      show "list_all (\<lambda>kv. \<not> is_array_index (fst kv) \<and> is_string (snd kv)) kvs"
        using assms(1) by (simp add: x)
      show "distinct (map fst ([] @ kvs))" using assms(1) by (simp add: x)
      show "length ?members < m"
        using assms(2) by (simp add: x n JSON_stringify_JObj del: JSON_stringify.simps)
    qed
    then show ?thesis
      using parse_value_object [of "0x22" m "t @ 0x7D # rest"]
      by (simp add: x n JSON_stringify_JObj t is_json_space_def del: JSON_stringify.simps)
  qed
qed

lemma parse_elements_flat:
  assumes "xs \<noteq> []" and "list_all flat_record xs"
    and "length (join_with 0x2C (map (JSON_stringify rt) xs)) < n"
  shows "parse_elements n acc (join_with 0x2C (map (JSON_stringify rt) xs) @ 0x5D # rest)
         = Some (JArr (acc @ xs), rest)"
  using assms
proof (induction xs arbitrary: acc n)
  case Nil
  then show ?case by simp
next
  case (Cons x xs)
  obtain m where n: "n = Suc m" using Cons.prems(3) by (cases n) auto
  have flat: "flat_record x" using Cons.prems(2) by simp
  show ?case
  proof (cases "xs = []")
    case True
    have "parse_value m (JSON_stringify rt x @ 0x5D # rest) = Some (x, 0x5D # rest)"
      using Cons.prems(3) True by (intro parse_value_flat flat) (simp add: n)
    then show ?thesis
      using parse_elements_step [of m _ x "0x5D" rest acc] True
      by (simp add: n is_json_space_def)
  next
    case False
    let ?more = "join_with 0x2C (map (JSON_stringify rt) xs) @ 0x5D # rest"
    have pv: "parse_value m (JSON_stringify rt x @ 0x2C # ?more) = Some (x, 0x2C # ?more)"
      using Cons.prems(3) False by (intro parse_value_flat flat) (simp add: n join_with_Cons)
    have "parse_elements m (acc @ [x]) ?more = Some (JArr ((acc @ [x]) @ xs), rest)"
      using Cons.prems(2,3) False by (intro Cons.IH) (simp_all add: n join_with_Cons)
    then show ?thesis
      using parse_elements_step [OF pv, of acc] False
      by (simp add: n is_json_space_def join_with_Cons)
  qed
qed

lemma JSON_stringify_JArr:
  "JSON_stringify rt (JArr xs) = 0x5B # join_with 0x2C (map (JSON_stringify rt) xs) @ [0x5D]"
  by simp

lemma JSON_parse_stringify_flat:
  assumes "list_all flat_record xs"
  shows "JSON_parse (JSON_stringify rt (JArr xs)) = Inr (JArr xs)"
proof (cases xs)
  case Nil
  then show ?thesis
    using parse_value_array [of "0x5D" 4 "[]"]
    by (simp add: JSON_parse_def is_json_space_def skip_space_def)
next
  case (Cons x xs')
  let ?elems = "join_with 0x2C (map (JSON_stringify rt) xs)"
  obtain kvs where x: "x = JObj kvs" using assms Cons by (cases x) auto
  obtain t where t: "?elems = 0x7B # t"
    by (cases "xs' = []") (simp_all add: Cons x join_with_Cons JSON_stringify_JObj del: JSON_stringify.simps)
  have pe: "parse_elements (2 * length ?elems + 4) [] (?elems @ 0x5D # []) = Some (JArr ([] @ xs), [])"
    using assms by (intro parse_elements_flat) (simp_all add: Cons)
  have "parse_value (Suc (2 * length ?elems + 4)) (0x5B # 0x7B # t @ [0x5D])
        = parse_elements (2 * length ?elems + 4) [] (0x7B # t @ [0x5D])"
    using parse_value_array [of "0x7B" "2 * length ?elems + 4" "t @ [0x5D]"]
    by (simp add: is_json_space_def)
  with pe have pv: "parse_value (Suc (2 * length ?elems + 4)) (0x5B # 0x7B # t @ [0x5D]) = Some (JArr xs, [])"
    by (simp add: t)
  have shape: "JSON_stringify rt (JArr xs) = 0x5B # 0x7B # t @ [0x5D]"
    by (simp add: JSON_stringify_JArr t del: JSON_stringify.simps)
  have fuel: "2 * length (JSON_stringify rt (JArr xs)) + 1 = Suc (2 * length ?elems + 4)"
    by (simp add: JSON_stringify_JArr del: JSON_stringify.simps)
  show ?thesis
    unfolding JSON_parse_def fuel unfolding shape pv by (simp add: skip_space_def)
qed

section \<open>The fuel of the parser is enough\<close>

text \<open>
  Every call of the parser consumes input before it descends, so a parse that succeeds
  with some fuel succeeds with the fuel \<open>JSON_parse\<close> gives: a text is rejected only
  when no fuel makes it parse.
\<close>

lemma skip_space_length: "length (skip_space s) \<le> length s"
  by (simp add: skip_space_def length_dropWhile_le)

lemma skip_space_Cons_length: "skip_space s = c # r \<Longrightarrow> length r < length s"
  using skip_space_length [of s] by simp

lemma cons_char_length:
  "cons_char c x = Some (t, r) \<Longrightarrow> \<exists>t'. x = Some (t', r)"
  by (cases x) (auto simp: cons_char_def)

lemma parse_string_length: "parse_string s = Some (t, r) \<Longrightarrow> length r < length s"
proof (induction s arbitrary: t rule: parse_string.induct)
  case 1
  then show ?case by simp
next
  case (2 c s)
  show ?case
  proof (cases "c = 0x22")
    case True
    with "2.prems" show ?thesis by simp
  next
    case quote: False
    show ?thesis
    proof (cases "c = 0x5C")
      case False
      with quote "2.prems" obtain t' where low: "\<not> c < 0x20" and ps: "parse_string s = Some (t', r)"
        by (auto dest: cons_char_length split: if_splits)
      have "length r < length s"
        by (rule "2.IH"(3) [OF quote False low ps])
      then show ?thesis by simp
    next
      case True
      show ?thesis
      proof (cases s)
        case Nil
        with True "2.prems" show ?thesis by simp
      next
        case (Cons e s1)
        show ?thesis
        proof (cases "e = 0x75")
          case False
          with True Cons "2.prems" obtain u t' where se: "simple_escape e = Some u"
            and ps: "parse_string s1 = Some (t', r)"
            by (auto dest: cons_char_length split: option.splits)
          have "length r < length s1"
            by (rule "2.IH"(2) [OF quote True Cons False se ps])
          then show ?thesis by (simp add: Cons)
        next
          case u: True
          with True Cons "2.prems" obtain a b c' d s2 w t' where s1: "s1 = a # b # c' # d # s2"
            and hv: "hex4_value a b c' d = Some w" and ps: "parse_string s2 = Some (t', r)"
            by (auto dest: cons_char_length split: list.splits option.splits)
          have "length r < length s2"
            by (rule "2.IH"(1) [OF quote True Cons u s1 refl refl refl hv ps])
          then show ?thesis by (simp add: Cons s1)
        qed
      qed
    qed
  qed
qed

lemma parse_digits_length: "parse_digits s = Some (ds, r) \<Longrightarrow> length r < length s"
proof -
  assume "parse_digits s = Some (ds, r)"
  then have "takeWhile is_digit s \<noteq> []" and r: "r = dropWhile is_digit s"
    by (auto simp: parse_digits_def Let_def split: if_splits)
  then have "1 \<le> length (takeWhile is_digit s)"
    by (cases "takeWhile is_digit s") simp_all
  moreover have "length (takeWhile is_digit s) + length (dropWhile is_digit s) = length s"
    by (metis length_append takeWhile_dropWhile_id)
  ultimately show ?thesis unfolding r by linarith
qed

lemma parse_fraction_length: "parse_fraction s = Some (f, r) \<Longrightarrow> length r \<le> length s"
  by (auto simp: parse_fraction_def split: list.splits if_splits dest!: parse_digits_length)

lemma parse_exponent_length: "parse_exponent s = Some (f, r) \<Longrightarrow> length r \<le> length s"
  by (auto simp: parse_exponent_def split: list.splits if_splits dest!: parse_digits_length)

lemma parse_unsigned_length: "parse_unsigned s = Some (n, r) \<Longrightarrow> length r < length s"
  by (auto simp: parse_unsigned_def split: option.splits if_splits
      dest!: parse_digits_length parse_fraction_length parse_exponent_length)

lemma parse_number_length: "parse_number s = Some (n, r) \<Longrightarrow> length r < length s"
  by (auto simp: parse_number_def split: list.splits if_splits dest!: parse_unsigned_length)

lemma starts_with_length: "starts_with s t \<Longrightarrow> length t \<le> length s"
  by (induction s t rule: starts_with.induct) auto

lemma parse_scalar_length: "parse_scalar s = Some (v, r) \<Longrightarrow> length r < length s"
proof -
  assume a: "parse_scalar s = Some (v, r)"
  then obtain c s' where s: "s = c # s'" by (cases s) (auto simp: parse_scalar_def)
  have lens: "starts_with s (js ''true'') \<Longrightarrow> 4 \<le> length s"
    "starts_with s (js ''false'') \<Longrightarrow> 5 \<le> length s"
    "starts_with s (js ''null'') \<Longrightarrow> 4 \<le> length s"
    by (auto dest!: starts_with_length simp: js_def)
  from a show ?thesis
    unfolding parse_scalar_def s [symmetric]
    using lens
    by (auto simp: s split: if_splits dest!: parse_string_length parse_number_length)
qed

lemma pv_obj_end:
  "skip_space s = 0x7B # r0 \<Longrightarrow> skip_space r0 = 0x7D # r1 \<Longrightarrow>
   parse_value (Suc m) s = Some (JObj [], r1)"
  by (simp add: parse_value.simps)

lemma pv_obj:
  "skip_space s = 0x7B # r0 \<Longrightarrow> skip_space r0 = d # r1 \<Longrightarrow> d \<noteq> 0x7D \<Longrightarrow>
   parse_value (Suc m) s = parse_members m [] (d # r1)"
  by (simp add: parse_value.simps)

lemma pv_arr_end:
  "skip_space s = 0x5B # r0 \<Longrightarrow> skip_space r0 = 0x5D # r1 \<Longrightarrow>
   parse_value (Suc m) s = Some (JArr [], r1)"
  by (simp add: parse_value.simps)

lemma pv_arr:
  "skip_space s = 0x5B # r0 \<Longrightarrow> skip_space r0 = d # r1 \<Longrightarrow> d \<noteq> 0x5D \<Longrightarrow>
   parse_value (Suc m) s = parse_elements m [] (d # r1)"
  by (simp add: parse_value.simps)

lemma pv_scalar:
  "skip_space s = c # r0 \<Longrightarrow> c \<noteq> 0x7B \<Longrightarrow> c \<noteq> 0x5B \<Longrightarrow>
   parse_value (Suc m) s = parse_scalar (c # r0)"
  by (simp add: parse_value.simps)

lemma pe_step:
  "parse_value m s = Some (v0, r0) \<Longrightarrow> skip_space r0 = c # r' \<Longrightarrow>
   parse_elements (Suc m) acc s =
     (if c = 0x2C then parse_elements m (acc @ [v0]) r'
      else if c = 0x5D then Some (JArr (acc @ [v0]), r') else None)"
  by (simp add: parse_elements.simps)

lemma pm_step:
  "skip_space s = 0x22 # r0 \<Longrightarrow> parse_string r0 = Some (k, r1) \<Longrightarrow>
   skip_space r1 = 0x3A # r2 \<Longrightarrow> parse_value m r2 = Some (v0, r3) \<Longrightarrow>
   skip_space r3 = d # r4 \<Longrightarrow>
   parse_members (Suc m) acc s =
     (if d = 0x2C then parse_members m (obj_put k v0 acc) r4
      else if d = 0x7D then Some (JObj (obj_put k v0 acc), r4) else None)"
  by (simp add: parse_members.simps)

lemma pv_cases:
  assumes "parse_value (Suc n) s = Some (v, r)"
  obtains (obj_end) r0 where "skip_space s = 0x7B # r0" "skip_space r0 = 0x7D # r" "v = JObj []"
    | (obj) r0 d r1 where "skip_space s = 0x7B # r0" "skip_space r0 = d # r1" "d \<noteq> 0x7D"
        "parse_members n [] (d # r1) = Some (v, r)"
    | (arr_end) r0 where "skip_space s = 0x5B # r0" "skip_space r0 = 0x5D # r" "v = JArr []"
    | (arr) r0 d r1 where "skip_space s = 0x5B # r0" "skip_space r0 = d # r1" "d \<noteq> 0x5D"
        "parse_elements n [] (d # r1) = Some (v, r)"
    | (scalar) c r0 where "skip_space s = c # r0" "c \<noteq> 0x7B" "c \<noteq> 0x5B"
        "parse_scalar (c # r0) = Some (v, r)"
  using assms by (auto simp: parse_value.simps split: list.splits if_splits)

lemma pe_cases:
  assumes "parse_elements (Suc n) acc s = Some (v, r)"
  obtains (more) v0 r0 r' where "parse_value n s = Some (v0, r0)" "skip_space r0 = 0x2C # r'"
        "parse_elements n (acc @ [v0]) r' = Some (v, r)"
    | (last) v0 r0 where "parse_value n s = Some (v0, r0)" "skip_space r0 = 0x5D # r"
        "v = JArr (acc @ [v0])"
  using assms by (auto simp: parse_elements.simps split: option.splits list.splits if_splits)

lemma pm_cases:
  assumes "parse_members (Suc n) acc s = Some (v, r)"
  obtains (more) r0 k r1 r2 v0 r3 r4 where "skip_space s = 0x22 # r0"
        "parse_string r0 = Some (k, r1)" "skip_space r1 = 0x3A # r2"
        "parse_value n r2 = Some (v0, r3)" "skip_space r3 = 0x2C # r4"
        "parse_members n (obj_put k v0 acc) r4 = Some (v, r)"
    | (last) r0 k r1 r2 v0 r3 where "skip_space s = 0x22 # r0"
        "parse_string r0 = Some (k, r1)" "skip_space r1 = 0x3A # r2"
        "parse_value n r2 = Some (v0, r3)" "skip_space r3 = 0x7D # r"
        "v = JObj (obj_put k v0 acc)"
  using assms by (auto simp: parse_members.simps split: option.splits list.splits if_splits)

lemma parse_enough_fuel:
  "parse_value n s = Some (v, r) \<Longrightarrow>
     length r < length s \<and>
     (\<forall>m. 2 * (length s - length r) \<le> m \<longrightarrow> parse_value m s = Some (v, r))"
  "parse_elements n acc s = Some (v, r) \<Longrightarrow>
     length r < length s \<and>
     (\<forall>m. 2 * (length s - length r) + 1 \<le> m \<longrightarrow> parse_elements m acc s = Some (v, r))"
  "parse_members n acc' s = Some (v, r) \<Longrightarrow>
     length r < length s \<and>
     (\<forall>m. 2 * (length s - length r) + 1 \<le> m \<longrightarrow> parse_members m acc' s = Some (v, r))"
proof (induction n s and n acc s and n acc' s arbitrary: v r and v r and v r
    rule: parse_value_parse_elements_parse_members.induct)
  case (1 s)
  then show ?case by (simp add: parse_value.simps)
next
  case (2 n s)
  from "2.prems" show ?case
  proof (cases rule: pv_cases)
    case (obj_end r0)
    have len: "length r < length r0" "length r0 < length s"
      using obj_end(1,2) by (auto dest: skip_space_Cons_length)
    have "parse_value m s = Some (v, r)" if "2 * (length s - length r) \<le> m" for m
    proof -
      from that len obtain m' where "m = Suc m'" by (cases m) auto
      then show ?thesis using pv_obj_end [OF obj_end(1,2)] obj_end(3) by simp
    qed
    with len show ?thesis by simp
  next
    case (obj r0 d r1)
    have len: "length r1 < length r0" "length r0 < length s"
      using obj(1,2) by (auto dest: skip_space_Cons_length)
    from "2.IH"(1) [OF obj(1) refl obj(2,3,4)]
    have ih: "length r < length (d # r1)"
      "\<And>m. 2 * (length (d # r1) - length r) + 1 \<le> m \<Longrightarrow> parse_members m [] (d # r1) = Some (v, r)"
      by blast+
    have "parse_value m s = Some (v, r)" if "2 * (length s - length r) \<le> m" for m
    proof -
      from that len ih(1) obtain m' where m: "m = Suc m'" by (cases m) auto
      with that len ih(1) have "2 * (length (d # r1) - length r) + 1 \<le> m'" by simp
      then show ?thesis using pv_obj [OF obj(1,2,3)] ih(2) m by simp
    qed
    with len ih(1) show ?thesis by simp
  next
    case (arr_end r0)
    have len: "length r < length r0" "length r0 < length s"
      using arr_end(1,2) by (auto dest: skip_space_Cons_length)
    have "parse_value m s = Some (v, r)" if "2 * (length s - length r) \<le> m" for m
    proof -
      from that len obtain m' where "m = Suc m'" by (cases m) auto
      then show ?thesis using pv_arr_end [OF arr_end(1,2)] arr_end(3) by simp
    qed
    with len show ?thesis by simp
  next
    case (arr r0 d r1)
    have len: "length r1 < length r0" "length r0 < length s"
      using arr(1,2) by (auto dest: skip_space_Cons_length)
    have c: "(0x5B :: cu) \<noteq> 0x7B" by simp
    from "2.IH"(2) [OF arr(1) c refl arr(2,3,4)]
    have ih: "length r < length (d # r1)"
      "\<And>m. 2 * (length (d # r1) - length r) + 1 \<le> m \<Longrightarrow> parse_elements m [] (d # r1) = Some (v, r)"
      by blast+
    have "parse_value m s = Some (v, r)" if "2 * (length s - length r) \<le> m" for m
    proof -
      from that len ih(1) obtain m' where m: "m = Suc m'" by (cases m) auto
      with that len ih(1) have "2 * (length (d # r1) - length r) + 1 \<le> m'" by simp
      then show ?thesis using pv_arr [OF arr(1,2,3)] ih(2) m by simp
    qed
    with len ih(1) show ?thesis by simp
  next
    case (scalar c r0)
    have len: "length r0 < length s" "length r < length (c # r0)"
      using scalar(1) parse_scalar_length [OF scalar(4)] by (auto dest: skip_space_Cons_length)
    have "parse_value m s = Some (v, r)" if "2 * (length s - length r) \<le> m" for m
    proof -
      from that len obtain m' where "m = Suc m'" by (cases m) auto
      then show ?thesis using pv_scalar [OF scalar(1,2,3)] scalar(4) by simp
    qed
    with len show ?thesis by simp
  qed
next
  case (3 acc s)
  then show ?case by (simp add: parse_elements.simps)
next
  case (4 n acc s)
  from "4.prems" show ?case
  proof (cases rule: pe_cases)
    case (more v0 r0 r')
    from "4.IH"(1) [OF more(1)]
    have first: "length r0 < length s"
      "\<And>m. 2 * (length s - length r0) \<le> m \<Longrightarrow> parse_value m s = Some (v0, r0)"
      by blast+
    have c: "(0x2C :: cu) = 0x2C" by simp
    from "4.IH"(2) [OF more(1) refl more(2) c more(3)]
    have rest: "length r < length r'"
      "\<And>m. 2 * (length r' - length r) + 1 \<le> m \<Longrightarrow> parse_elements m (acc @ [v0]) r' = Some (v, r)"
      by blast+
    have len: "length r' < length r0" using more(2) by (rule skip_space_Cons_length)
    have "parse_elements m acc s = Some (v, r)" if "2 * (length s - length r) + 1 \<le> m" for m
    proof -
      from that obtain m' where m: "m = Suc m'" by (cases m) auto
      with that first(1) rest(1) len have "2 * (length s - length r0) \<le> m'"
        "2 * (length r' - length r) + 1 \<le> m'" by simp_all
      then have "parse_value m' s = Some (v0, r0)"
        "parse_elements m' (acc @ [v0]) r' = Some (v, r)"
        using first(2) rest(2) by simp_all
      then show ?thesis using pe_step [OF _ more(2), of m' s v0 acc] m by simp
    qed
    with first(1) rest(1) len show ?thesis by simp
  next
    case (last v0 r0)
    from "4.IH"(1) [OF last(1)]
    have first: "length r0 < length s"
      "\<And>m. 2 * (length s - length r0) \<le> m \<Longrightarrow> parse_value m s = Some (v0, r0)"
      by blast+
    have len: "length r < length r0" using last(2) by (rule skip_space_Cons_length)
    have "parse_elements m acc s = Some (v, r)" if "2 * (length s - length r) + 1 \<le> m" for m
    proof -
      from that obtain m' where m: "m = Suc m'" by (cases m) auto
      with that first(1) len have "2 * (length s - length r0) \<le> m'" by simp
      then have "parse_value m' s = Some (v0, r0)" using first(2) by simp
      then show ?thesis using pe_step [OF _ last(2), of m' s v0 acc] m last(3) by simp
    qed
    with first(1) len show ?thesis by simp
  qed
next
  case (5 acc' s)
  then show ?case by (simp add: parse_members.simps)
next
  case (6 n acc' s)
  from "6.prems" show ?case
  proof (cases rule: pm_cases)
    case (more r0 k r1 r2 v0 r3 r4)
    have q: "(0x22 :: cu) = 0x22" and colon: "(0x3A :: cu) = 0x3A" and comma: "(0x2C :: cu) = 0x2C"
      by simp_all
    from "6.IH"(1) [OF more(1) q more(2) refl more(3) colon more(4)]
    have val: "length r3 < length r2"
      "\<And>m. 2 * (length r2 - length r3) \<le> m \<Longrightarrow> parse_value m r2 = Some (v0, r3)"
      by blast+
    from "6.IH"(2) [OF more(1) q more(2) refl more(3) colon more(4) refl more(5) comma more(6)]
    have rest: "length r < length r4"
      "\<And>m. 2 * (length r4 - length r) + 1 \<le> m \<Longrightarrow>
         parse_members m (obj_put k v0 acc') r4 = Some (v, r)"
      by blast+
    have len: "length r0 < length s" "length r1 < length r0" "length r2 < length r1"
      "length r4 < length r3"
      using more(1,3,5) parse_string_length [OF more(2)] by (auto dest: skip_space_Cons_length)
    have "parse_members m acc' s = Some (v, r)" if "2 * (length s - length r) + 1 \<le> m" for m
    proof -
      from that obtain m' where m: "m = Suc m'" by (cases m) auto
      with that val(1) rest(1) len have "2 * (length r2 - length r3) \<le> m'"
        "2 * (length r4 - length r) + 1 \<le> m'" by simp_all
      then have "parse_value m' r2 = Some (v0, r3)"
        "parse_members m' (obj_put k v0 acc') r4 = Some (v, r)"
        using val(2) rest(2) by simp_all
      then show ?thesis
        using pm_step [OF more(1,2,3) _ more(5), of m' v0 acc'] m by simp
    qed
    with val(1) rest(1) len show ?thesis by simp
  next
    case (last r0 k r1 r2 v0 r3)
    have q: "(0x22 :: cu) = 0x22" and colon: "(0x3A :: cu) = 0x3A" by simp_all
    from "6.IH"(1) [OF last(1) q last(2) refl last(3) colon last(4)]
    have val: "length r3 < length r2"
      "\<And>m. 2 * (length r2 - length r3) \<le> m \<Longrightarrow> parse_value m r2 = Some (v0, r3)"
      by blast+
    have len: "length r0 < length s" "length r1 < length r0" "length r2 < length r1"
      "length r < length r3"
      using last(1,3,5) parse_string_length [OF last(2)] by (auto dest: skip_space_Cons_length)
    have "parse_members m acc' s = Some (v, r)" if "2 * (length s - length r) + 1 \<le> m" for m
    proof -
      from that obtain m' where m: "m = Suc m'" by (cases m) auto
      with that val(1) len have "2 * (length r2 - length r3) \<le> m'" by simp
      then have "parse_value m' r2 = Some (v0, r3)" using val(2) by simp
      then show ?thesis
        using pm_step [OF last(1,2,3) _ last(5), of m' v0 acc'] m last(6) by simp
    qed
    with val(1) len show ?thesis by simp
  qed
qed

lemma parse_value_fuel:
  assumes "parse_value n s = Some (v, r)"
  shows "parse_value (2 * length s + 1) s = Some (v, r)"
proof -
  from parse_enough_fuel(1) [OF assms]
  have "\<And>m. 2 * (length s - length r) \<le> m \<Longrightarrow> parse_value m s = Some (v, r)" by blast
  then show ?thesis by simp
qed

lemma JSON_parse_accepts:
  "parse_value n s = Some (v, r) \<Longrightarrow> skip_space r = [] \<Longrightarrow> JSON_parse s = Inr v"
  using parse_value_fuel [of n s v r] by (simp add: JSON_parse_def)

lemma JSON_parse_rejects:
  "JSON_parse s = Inl e \<Longrightarrow> parse_value n s = Some (v, r) \<Longrightarrow> skip_space r \<noteq> []"
  using parse_value_fuel [of n s v r] by (auto simp: JSON_parse_def)

section \<open>Properties of the validators\<close>

lemma js_not_empty: "s \<noteq> [] \<Longrightarrow> js s \<noteq> []"
  by (simp add: js_def)

lemma match_from_iff:
  "match_from cls lo hi s \<longleftrightarrow> lo \<le> length s \<and> length s \<le> hi \<and> list_all (class_matches cls) s"
proof (induction s arbitrary: lo hi)
  case Nil
  show ?case by simp
next
  case (Cons c s)
  show ?case by (auto simp: Cons.IH)
qed

lemma class_matches_phone: "class_matches (char_class phoneRegex) = phone_char"
  by (rule ext) (auto simp: class_matches_def phoneRegex_def phone_char_def)

lemma regex_test_phone: "regex_test phoneRegex s = phone_pattern s"
  unfolding regex_test_def match_from_iff class_matches_phone phone_pattern_def
  by (simp add: phoneRegex_def)

text \<open>
  C3. \<open>validateName\<close> accepts a value exactly when its trimmed length is between 1 and
  100: it is valid for every trimmed length in that range and invalid for the trimmed
  length 0 and for every trimmed length above 100.
\<close>

theorem validateName_valid_iff:
  "valid (validateName v) \<longleftrightarrow> 1 \<le> length (trim v) \<and> length (trim v) \<le> 100"
  by (cases "trim v") (simp_all add: validateName_def Let_def)

theorem validateName_valid_iff_witness:
  "valid (validateName (js ''  Jo Smith '')) \<and> \<not> valid (validateName (js ''   '')) \<and>
   \<not> valid (validateName (replicate 101 0x61))"
  using validateName_valid_iff [of "js ''  Jo Smith ''"] validateName_valid_iff [of "js ''   ''"]
    validateName_valid_iff [of "replicate 101 0x61"]
  by (simp add: trim_def js_def cu_of_def is_white_space_def)


text \<open>
  C2. \<open>validatePhone\<close> accepts a value exactly when its trimmed form matches the
  pattern: only digits, white space, hyphen, parentheses, plus and period, between 7 and 20
  code units. Every other trimmed form, the empty one among them, is rejected.
\<close>

theorem validatePhone_valid_iff:
  "valid (validatePhone v) \<longleftrightarrow> phone_pattern (trim v)"
proof (cases "trim v = []")
  case True
  then show ?thesis by (simp add: validatePhone_def phone_pattern_def)
next
  case False
  then show ?thesis by (simp add: validatePhone_def Let_def regex_test_phone)
qed

theorem validatePhone_valid_iff_witness:
  "valid (validatePhone (js '' +1 (555) 123-4567 '')) \<and> \<not> valid (validatePhone (js ''555-12'')) \<and>
   \<not> valid (validatePhone (js ''555-1234x67'')) \<and> \<not> valid (validatePhone [])"
  using validatePhone_valid_iff [of "js '' +1 (555) 123-4567 ''"]
    validatePhone_valid_iff [of "js ''555-12''"] validatePhone_valid_iff [of "js ''555-1234x67''"]
    validatePhone_valid_iff [of "[]"]
  by (simp add: trim_def js_def cu_of_def is_white_space_def phone_pattern_def phone_char_def
      is_digit_def)

text \<open>
  C7. \<open>validateForm\<close> evaluates the four validators on their own fields, whatever the
  others return: the verdict is the conjunction of the four, every error element shows the
  message of its own validator, and that message is non-empty exactly for a failing field.
\<close>

theorem validateForm_reports_all:
  "fst (validateForm f) =
     (valid (validateName (leadName f)) \<and> valid (validatePhone (leadPhone f)) \<and>
      valid (validateSource (leadSource f)) \<and> valid (validateStatus (leadStatus f))) \<and>
   nameError (snd (validateForm f)) = message (validateName (leadName f)) \<and>
   phoneError (snd (validateForm f)) = message (validatePhone (leadPhone f)) \<and>
   sourceError (snd (validateForm f)) = message (validateSource (leadSource f)) \<and>
   statusError (snd (validateForm f)) = message (validateStatus (leadStatus f)) \<and>
   (nameError (snd (validateForm f)) \<noteq> []) = (\<not> valid (validateName (leadName f))) \<and>
   (phoneError (snd (validateForm f)) \<noteq> []) = (\<not> valid (validatePhone (leadPhone f))) \<and>
   (sourceError (snd (validateForm f)) \<noteq> []) = (\<not> valid (validateSource (leadSource f))) \<and>
   (statusError (snd (validateForm f)) \<noteq> []) = (\<not> valid (validateStatus (leadStatus f)))"
  by (simp add: validateForm_def Let_def validateName_def validatePhone_def validateSource_def
      validateStatus_def js_def)


section \<open>Properties of the filter\<close>

lemma is_lead_property:
  assumes "is_lead lead"
  shows "property lead k = Inr None \<or> (\<exists>s. property lead k = Inr (Some (JStr s)))"
proof -
  from assms obtain kvs where l: "lead = JObj kvs" and strs: "list_all (\<lambda>kv. is_string (snd kv)) kvs"
    by (cases lead) auto
  show ?thesis
  proof (cases "map_of kvs k")
    case None
    then show ?thesis by (simp add: l)
  next
    case (Some v)
    then have "(k, v) \<in> set kvs" by (rule map_of_SomeD)
    with strs have "is_string v" by (auto simp: list_all_iff)
    then obtain s where "v = JStr s" by (cases v) auto
    with Some show ?thesis by (simp add: l)
  qed
qed

lemma matchesField_lead:
  assumes "is_lead lead" "toLowerCase rt [] = []" "term \<noteq> []"
  shows "matchesField rt lead k term = Inr (sublist term (toLowerCase rt (text_of lead k)))"
  using is_lead_property [OF assms(1), of k] assms(2,3)
  by (auto simp: matchesField_def text_of_def js_includes_sublist)

lemma matchesStatus_lead:
  assumes "is_lead lead"
  shows "matchesStatus fs lead = Inr (status fs = [] \<or> text_of lead (js ''status'') = status fs)"
  using is_lead_property [OF assms(1), of "js ''status''"]
  by (auto simp: matchesStatus_def text_of_def)

lemma callback_lead:
  assumes "is_lead lead" "toLowerCase rt [] = []" "toLowerCase rt (search fs) = search fs"
  shows "then_do (matchesSearch rt fs lead) (\<lambda>ms. then_do (matchesStatus fs lead) (\<lambda>mt. Inr (ms \<and> mt)))
         = Inr (lead_matches rt fs lead)"
  using assms
  by (auto simp: matchesSearch_def matchesField_lead matchesStatus_lead lead_matches_def ci_contains_def)

text \<open>
  C1. For every list of leads and every pair of filters whose search term is already
  lower-cased, \<open>filterLeads\<close> returns exactly the leads for which the search term is
  empty or contained, as a case-insensitive substring, in the name or in the phone, and
  for which the status filter is empty or equal to the status of the lead; the leads kept
  stand in the order of the input. (\<open>toLowerCase\<close> maps the empty string to itself.)
\<close>

theorem filterLeads_spec:
  assumes "toLowerCase rt [] = []" and "toLowerCase rt (search fs) = search fs"
    and "list_all is_lead leads"
  shows "filterLeads rt (JArr leads) fs = Inr (JArr (filter (lead_matches rt fs) leads))"
proof -
  have "array_filter (\<lambda>lead. then_do (matchesSearch rt fs lead) (\<lambda>ms.
          then_do (matchesStatus fs lead) (\<lambda>mt. Inr (ms \<and> mt)))) leads
        = Inr (filter (lead_matches rt fs) leads)"
    using assms by (intro array_filter_total callback_lead) (auto simp: list_all_iff)
  then show ?thesis by (simp add: filterLeads_def)
qed



lemma lead_keys_simps:
  "lead_keys = [[0x69, 0x64], [0x6E, 0x61, 0x6D, 0x65], [0x70, 0x68, 0x6F, 0x6E, 0x65],
                [0x73, 0x6F, 0x75, 0x72, 0x63, 0x65], [0x73, 0x74, 0x61, 0x74, 0x75, 0x73]]"
  by (simp add: lead_keys_def js_def cu_of_def)

lemma is_lead_jo: "is_lead lead_jo"
  by (simp add: lead_jo_def lead_keys_simps) (simp add: js_def cu_of_def)

lemma is_lead_ann: "is_lead lead_ann"
  by (simp add: lead_ann_def lead_keys_simps) (simp add: js_def cu_of_def)

theorem filterLeads_spec_witness:
  "toLowerCase example_runtime [] = [] \<and>
   toLowerCase example_runtime (js ''jo'') = js ''jo'' \<and>
   list_all is_lead [lead_jo, lead_ann] \<and>
   filterLeads example_runtime (JArr [lead_jo, lead_ann]) \<lparr>search = js ''jo'', status = []\<rparr>
     = Inr (JArr [lead_jo])"
proof -
  have a: "toLowerCase example_runtime [] = []" by (simp add: example_runtime_def)
  have b: "toLowerCase example_runtime (search \<lparr>search = js ''jo'', status = []\<rparr>)
           = search \<lparr>search = js ''jo'', status = []\<rparr>"
    by (simp add: example_runtime_def ascii_lower_def js_def cu_of_def)
  have c: "list_all is_lead [lead_jo, lead_ann]" by (simp add: is_lead_jo is_lead_ann)
  have d: "lead_matches example_runtime \<lparr>search = js ''jo'', status = []\<rparr> lead_jo"
    by (simp add: lead_matches_def ci_contains_def text_of_def lead_jo_def example_runtime_def
        ascii_lower_def js_def cu_of_def js_includes_sublist [symmetric])
  have e: "\<not> lead_matches example_runtime \<lparr>search = js ''jo'', status = []\<rparr> lead_ann"
    by (simp add: lead_matches_def ci_contains_def text_of_def lead_ann_def example_runtime_def
        ascii_lower_def js_def cu_of_def js_includes_sublist [symmetric])
  show ?thesis
    using filterLeads_spec [OF a b c] a b c d e by simp
qed


section \<open>The store and the handlers\<close>

lemma try_catch_Inr [simp]: "try_catch (Inr x) h = Inr x"
  by (simp add: try_catch_def)

lemma try_catch_Inl [simp]: "try_catch (Inl e) h = h e"
  by (simp add: try_catch_def)

lemma JSON_parse_error: "JSON_parse t = Inl e \<Longrightarrow> e = SyntaxError"
  by (auto simp: JSON_parse_def split: option.splits if_splits)

lemma getLeads_cases:
  "getLeads st =
     (if denied st then Inr (JArr [])
      else case items st STORAGE_KEY of
             None \<Rightarrow> Inr (JArr [])
           | Some t \<Rightarrow> if t = [] then Inr (JArr [])
                       else (case JSON_parse t of Inl e \<Rightarrow> Inr (JArr []) | Inr v \<Rightarrow> Inr v))"
  by (simp add: getLeads_def getItem_def split: option.splits sum.splits)

lemma getLeads_returns: "\<exists>v. getLeads st = Inr v"
  by (simp add: getLeads_cases split: option.splits sum.splits)

lemma saveLeads_stored: "saveLeads rt st v = Inr (stored rt st v)"
  by (simp add: saveLeads_def setItem_def stored_def accepts_def)

lemma stored_flags [simp]: "denied (stored rt st v) = denied st" "quota (stored rt st v) = quota st"
  by (simp_all add: stored_def)

lemma JSON_stringify_JArr_not_empty: "JSON_stringify rt (JArr xs) \<noteq> []"
  by simp

lemma getLeads_written:
  assumes "list_all flat_record L" and "\<not> denied st"
    and "items st STORAGE_KEY = Some (JSON_stringify rt (JArr L))"
  shows "getLeads st = Inr (JArr L)"
  using assms JSON_parse_stringify_flat [OF assms(1), of rt]
  by (simp add: getLeads_cases del: JSON_stringify.simps add: JSON_stringify_JArr)

lemma getLeads_stored:
  assumes "list_all flat_record L" and "getLeads st = Inr (JArr L0)"
  shows "getLeads (stored rt st (JArr L))
         = Inr (JArr (if accepts st (JSON_stringify rt (JArr L)) then L else L0))"
proof (cases "accepts st (JSON_stringify rt (JArr L))")
  case True
  have "getLeads (st\<lparr>items := (items st)(STORAGE_KEY \<mapsto> JSON_stringify rt (JArr L))\<rparr>) = Inr (JArr L)"
    using True by (intro getLeads_written [OF assms(1)]) (simp_all add: accepts_def)
  with True show ?thesis by (simp add: stored_def del: JSON_stringify.simps)
next
  case False
  with assms(2) show ?thesis by (simp add: stored_def del: JSON_stringify.simps)
qed

lemma lead_key_not_index: "k \<in> set lead_keys \<Longrightarrow> \<not> is_array_index k"
  by (auto simp: lead_keys_def is_array_index_def js_def cu_of_def is_digit_def)

lemma is_lead_flat: "is_lead l \<Longrightarrow> flat_record l"
  by (cases l) (auto simp: list_all_iff lead_key_not_index)

lemma leads_flat: "list_all is_lead L \<Longrightarrow> list_all flat_record L"
  by (auto simp: list_all_iff is_lead_flat)

lemma is_lead_field:
  assumes "is_lead l" and "k \<in> set lead_keys"
  shows "property l k = Inr (Some (JStr (text_of l k)))"
proof -
  obtain kvs where l: "l = JObj kvs" using assms(1) by (cases l) auto
  have "k \<in> set (map fst kvs)" using assms by (auto simp: l list_all_iff)
  then obtain v where "map_of kvs k = Some v"
    by (metis map_of_eq_None_iff not_Some_eq set_map)
  moreover from is_lead_property [OF assms(1), of k] this obtain s where "v = JStr s"
    by (auto simp: l)
  ultimately show ?thesis by (simp add: l text_of_def)
qed

lemma id_key: "js ''id'' \<in> set lead_keys"
  by (simp add: lead_keys_def)

lemma is_lead_id: "is_lead l \<Longrightarrow> property l (js ''id'') = Inr (Some (JStr (id_of l)))"
  by (simp add: is_lead_field id_key id_of_def)

lemma array_filter_by_id:
  assumes "list_all is_lead L"
  shows "array_filter (\<lambda>l. then_do (property l (js ''id'')) (\<lambda>i. Inr (i \<noteq> Some (JStr t)))) L
         = Inr (filter (\<lambda>l. id_of l \<noteq> t) L)"
  using assms by (intro array_filter_total) (simp add: list_all_iff is_lead_id)

lemma array_findIndex_first:
  assumes "list_all is_lead pre" and "is_lead l"
    and "\<forall>x\<in>set pre. id_of x \<noteq> t" and "id_of l = t"
  shows "array_findIndex (\<lambda>l. then_do (property l (js ''id'')) (\<lambda>i. Inr (i = Some (JStr t))))
           (pre @ l # post) = Inr (Some (length pre))"
  using assms by (induction pre) (simp_all add: is_lead_id)

lemma array_findIndex_none:
  assumes "list_all is_lead L" and "\<forall>x\<in>set L. id_of x \<noteq> t"
  shows "array_findIndex (\<lambda>l. then_do (property l (js ''id'')) (\<lambda>i. Inr (i = Some (JStr t)))) L
         = Inr None"
  using assms by (induction L) (simp_all add: is_lead_id)

lemma validateForm_values:
  "leadId (snd (validateForm f)) = leadId f" "leadName (snd (validateForm f)) = leadName f"
  "leadPhone (snd (validateForm f)) = leadPhone f" "leadSource (snd (validateForm f)) = leadSource f"
  "leadStatus (snd (validateForm f)) = leadStatus f"
  by (simp_all add: validateForm_def Let_def)

lemma handleFormSubmit_invalid:
  assumes "\<not> fst (validateForm (leadForm st))"
  shows "handleFormSubmit rt e st = Inr (st\<lparr>leadForm := snd (validateForm (leadForm st))\<rparr>)"
  using assms by (simp add: handleFormSubmit_def split_beta)

lemma handleFormSubmit_found:
  assumes "fst (validateForm (leadForm st))" and "trim (leadId (leadForm st)) \<noteq> []"
    and "getLeads (localStorage st) = Inr (JArr (pre @ l # post))"
    and "list_all is_lead pre" and "is_lead l"
    and "\<forall>x\<in>set pre. id_of x \<noteq> trim (leadId (leadForm st))"
    and "id_of l = trim (leadId (leadForm st))"
  shows "handleFormSubmit rt e st =
           Inr (st\<lparr>localStorage :=
                      stored rt (localStorage st) (JArr (pre @ updated_lead (leadForm st) # post)),
                    leadForm := resetForm (snd (validateForm (leadForm st)))\<rparr>)"
  using assms(1-3) array_findIndex_first [OF assms(4-7), of post]
  by (simp add: handleFormSubmit_def split_beta Let_def validateForm_values saveLeads_stored
      updated_lead_def del: JSON_stringify.simps)

lemma handleFormSubmit_missing:
  assumes "fst (validateForm (leadForm st))" and "trim (leadId (leadForm st)) \<noteq> []"
    and "getLeads (localStorage st) = Inr (JArr L)"
    and "list_all is_lead L"
    and "\<forall>x\<in>set L. id_of x \<noteq> trim (leadId (leadForm st))"
  shows "handleFormSubmit rt e st =
           Inr (st\<lparr>leadForm := resetForm (snd (validateForm (leadForm st)))\<rparr>)"
  using assms(1-3) array_findIndex_none [OF assms(4,5)]
  by (simp add: handleFormSubmit_def split_beta Let_def validateForm_values)

lemma handleFormSubmit_add:
  assumes "fst (validateForm (leadForm st))" and "trim (leadId (leadForm st)) = []"
    and "getLeads (localStorage st) = Inr (JArr L)"
  shows "handleFormSubmit rt e st =
           Inr (st\<lparr>localStorage :=
                      stored rt (localStorage st) (JArr (L @ [added_lead e (leadForm st)])),
                    leadForm := resetForm (snd (validateForm (leadForm st)))\<rparr>)"
  using assms
  by (simp add: handleFormSubmit_def split_beta Let_def validateForm_values saveLeads_stored
      added_lead_def del: JSON_stringify.simps)

lemma confirmDelete_leads:
  assumes "deleteTargetId st = Some t" and "t \<noteq> []"
    and "getLeads (localStorage st) = Inr (JArr L)" and "list_all is_lead L"
  shows "confirmDelete rt st =
           Inr (st\<lparr>localStorage :=
                      stored rt (localStorage st) (JArr (filter (\<lambda>l. id_of l \<noteq> t) L)),
                    deleteTargetId := None, modalVisible := False,
                    leadForm := resetForm (leadForm st)\<rparr>)"
  using assms(1-3) array_filter_by_id [OF assms(4), of t]
  by (simp add: confirmDelete_def saveLeads_stored del: JSON_stringify.simps)

lemma flat_examples: "list_all flat_record [lead_jo, lead_ann]"
  by (simp add: is_lead_flat is_lead_jo is_lead_ann)

lemma quote_body_ascii:
  "list_all (\<lambda>c. 0x20 \<le> c \<and> c < 0x7F \<and> c \<noteq> 0x22 \<and> c \<noteq> 0x5C) s \<Longrightarrow> quote_body s = s"
proof (induction s rule: quote_body.induct)
  case 1
  show ?case by simp
next
  case (2 c s)
  from "2.prems" have c: "0x20 \<le> c" "c < 0x7F" "c \<noteq> 0x22" "c \<noteq> 0x5C" and s: "list_all (\<lambda>c. 0x20 \<le> c \<and> c < 0x7F \<and> c \<noteq> 0x22 \<and> c \<noteq> 0x5C) s"
    by simp_all
  from c have plain: "c \<noteq> 0x08" "c \<noteq> 0x09" "c \<noteq> 0x0A" "c \<noteq> 0x0C" "c \<noteq> 0x0D" "\<not> c < 0x20"
    "\<not> is_high_surrogate c" "\<not> is_low_surrogate c"
    by (auto simp: is_high_surrogate_def is_low_surrogate_def word_le_nat_alt word_less_nat_alt)
  with c "2.IH"(12) s show ?case by simp
qed

lemmas example_eval = lead_jo_def lead_ann_def quote_def js_def cu_of_def is_high_surrogate_def
  is_low_surrogate_def

lemma example_accepts:
  "accepts (example_storage L0) (JSON_stringify example_runtime (JArr [lead_jo, lead_ann]))"
  by (simp add: accepts_def example_storage_def)
     (simp add: example_eval)

text \<open>
  C5, as amended. For every collection \<open>L\<close> of flat records of string fields, when
  the storage takes the write, saving \<open>L\<close> and then loading yields \<open>L\<close>: the same
  records in the same order, with the same fields.
\<close>

theorem save_then_load:
  assumes "list_all flat_record L" and "accepts st (JSON_stringify rt (JArr L))"
  shows "\<exists>st'. saveLeads rt st (JArr L) = Inr st' \<and> getLeads st' = Inr (JArr L)"
proof -
  obtain v where "getLeads st = Inr v" using getLeads_returns by blast
  have "getLeads (st\<lparr>items := (items st)(STORAGE_KEY \<mapsto> JSON_stringify rt (JArr L))\<rparr>) = Inr (JArr L)"
    using assms(2) by (intro getLeads_written [OF assms(1)]) (simp_all add: accepts_def)
  with assms(2) show ?thesis
    by (simp add: saveLeads_stored stored_def del: JSON_stringify.simps)
qed

theorem save_then_load_witness:
  "list_all flat_record [lead_jo, lead_ann] \<and>
   accepts (example_storage []) (JSON_stringify example_runtime (JArr [lead_jo, lead_ann])) \<and>
   (\<exists>st'. saveLeads example_runtime (example_storage []) (JArr [lead_jo, lead_ann]) = Inr st' \<and>
          getLeads st' = Inr (JArr [lead_jo, lead_ann]))"
  using save_then_load [OF flat_examples example_accepts [of "[]"]] flat_examples example_accepts
  by blast

text \<open>
  C6. The store never throws: \<open>getLeads\<close> and \<open>saveLeads\<close> always return. When the
  item is missing or empty, when reading is denied, or when the item cannot be parsed,
  \<open>getLeads\<close> returns the empty array; when the write fails, \<open>saveLeads\<close> returns
  the storage unchanged.
\<close>

theorem store_never_throws:
  "(\<exists>v. getLeads st = Inr v) \<and>
   (\<exists>st'. saveLeads rt st leads = Inr st') \<and>
   (items st STORAGE_KEY = None \<longrightarrow> getLeads st = Inr (JArr [])) \<and>
   (items st STORAGE_KEY = Some [] \<longrightarrow> getLeads st = Inr (JArr [])) \<and>
   (denied st \<longrightarrow> getLeads st = Inr (JArr [])) \<and>
   ((\<exists>t e. items st STORAGE_KEY = Some t \<and> JSON_parse t = Inl e) \<longrightarrow> getLeads st = Inr (JArr [])) \<and>
   (\<not> accepts st (JSON_stringify rt leads) \<longrightarrow> saveLeads rt st leads = Inr st)"
proof -
  have "\<exists>v. getLeads st = Inr v" by (rule getLeads_returns)
  moreover have "\<exists>st'. saveLeads rt st leads = Inr st'" by (simp add: saveLeads_stored)
  moreover have "items st STORAGE_KEY = None \<longrightarrow> getLeads st = Inr (JArr [])"
    by (simp add: getLeads_cases)
  moreover have "items st STORAGE_KEY = Some [] \<longrightarrow> getLeads st = Inr (JArr [])"
    by (simp add: getLeads_cases)
  moreover have "denied st \<longrightarrow> getLeads st = Inr (JArr [])"
    by (simp add: getLeads_cases)
  moreover have "(\<exists>t e. items st STORAGE_KEY = Some t \<and> JSON_parse t = Inl e) \<longrightarrow>
      getLeads st = Inr (JArr [])"
    by (auto simp: getLeads_cases)
  moreover have "\<not> accepts st (JSON_stringify rt leads) \<longrightarrow> saveLeads rt st leads = Inr st"
    by (simp add: saveLeads_stored stored_def)
  ultimately show ?thesis by blast
qed

lemma torn_parse: "JSON_parse (js ''[{'') = Inl SyntaxError"
proof -
  have "parse_value (Suc 2) [0x7B] = None"
    by (subst parse_value.simps) (simp add: skip_space_def is_json_space_def)
  then have "parse_elements (Suc 3) [] [0x7B] = None"
    by (subst parse_elements.simps) simp
  then have "parse_value (Suc 4) [0x5B, 0x7B] = None"
    using parse_value_array [of "0x7B" 4 "[]"] by (simp add: is_json_space_def)
  then show ?thesis
    by (simp add: JSON_parse_def js_def cu_of_def)
qed

theorem store_never_throws_witness:
  "items full_storage STORAGE_KEY = None \<and> getLeads full_storage = Inr (JArr []) \<and>
   denied blocked_storage \<and> getLeads blocked_storage = Inr (JArr []) \<and>
   items torn_storage STORAGE_KEY = Some (js ''[{'') \<and> JSON_parse (js ''[{'') = Inl SyntaxError \<and>
   getLeads torn_storage = Inr (JArr []) \<and>
   \<not> accepts full_storage (JSON_stringify example_runtime (JArr [lead_jo])) \<and>
   saveLeads example_runtime full_storage (JArr [lead_jo]) = Inr full_storage \<and>
   \<not> accepts blocked_storage (JSON_stringify example_runtime (JArr [lead_jo])) \<and>
   saveLeads example_runtime blocked_storage (JArr [lead_jo]) = Inr blocked_storage"
proof -
  have a: "items full_storage STORAGE_KEY = None" by (simp add: full_storage_def)
  have b: "denied blocked_storage" by (simp add: blocked_storage_def)
  have c: "items torn_storage STORAGE_KEY = Some (js ''[{'')" by (simp add: torn_storage_def)
  have d: "\<not> accepts full_storage (JSON_stringify example_runtime (JArr [lead_jo]))"
    by (simp add: accepts_def full_storage_def)
  have e: "\<not> accepts blocked_storage (JSON_stringify example_runtime (JArr [lead_jo]))"
    by (simp add: accepts_def blocked_storage_def)
  show ?thesis
    using store_never_throws [of full_storage example_runtime "JArr [lead_jo]"]
      store_never_throws [of blocked_storage example_runtime "JArr [lead_jo]"]
      store_never_throws [of torn_storage example_runtime "JArr [lead_jo]"]
      a b c d e torn_parse
    by blast
qed

text \<open>
  A stored text that parses is returned as parsed, whatever its shape: the text
  \<open>null\<close> gives \<open>null\<close>, not the empty array.
\<close>

lemma getLeads_parsed:
  "\<not> denied st \<Longrightarrow> items st STORAGE_KEY = Some t \<Longrightarrow> t \<noteq> [] \<Longrightarrow> JSON_parse t = Inr v \<Longrightarrow>
   getLeads st = Inr v"
  by (simp add: getLeads_cases)

lemma JSON_parse_null: "JSON_parse (js ''null'') = Inr JNull"
proof -
  have "parse_value (Suc 8) (js ''null'') = Some (JNull, [])"
    by (subst parse_value.simps)
       (simp add: js_def cu_of_def skip_space_def is_json_space_def parse_scalar_def)
  then show ?thesis by (simp add: JSON_parse_def js_def cu_of_def skip_space_def)
qed

lemma getLeads_null:
  "getLeads (torn_storage\<lparr>items := [STORAGE_KEY \<mapsto> js ''null'']\<rparr>) = Inr JNull"
  by (rule getLeads_parsed [OF _ _ _ JSON_parse_null]) (simp_all add: torn_storage_def js_def)

lemma replace_first_split:
  "list_all (\<lambda>x. \<not> p x) pre \<Longrightarrow> p l \<Longrightarrow> replace_first p y (pre @ l # post) = pre @ y # post"
  by (induction pre) simp_all

lemma replace_first_none: "list_all (\<lambda>x. \<not> p x) L \<Longrightarrow> replace_first p y L = L"
  by (induction L) simp_all

lemma replace_first_length: "length (replace_first p y L) = length L"
  by (induction L) simp_all

lemma replace_first_ids:
  "id_of y = t \<Longrightarrow> map id_of (replace_first (\<lambda>l. id_of l = t) y L) = map id_of L"
  by (induction L) simp_all

lemma replace_first_all: "list_all q L \<Longrightarrow> q y \<Longrightarrow> list_all q (replace_first p y L)"
  by (induction L) simp_all

lemma is_lead_updated: "is_lead (updated_lead f)"
  by (simp add: updated_lead_def lead_keys_simps) (simp add: js_def cu_of_def)

lemma is_lead_added: "is_lead (added_lead e f)"
  by (simp add: added_lead_def lead_keys_simps) (simp add: js_def cu_of_def)

lemma id_of_updated: "id_of (updated_lead f) = trim (leadId f)"
  by (simp add: id_of_def text_of_def updated_lead_def)

lemma id_of_added: "id_of (added_lead e f) = generateId e"
  by (simp add: id_of_def text_of_def added_lead_def js_def cu_of_def)

lemma updated_fields:
  "text_of (updated_lead f) (js ''name'') = trim (leadName f)"
  "text_of (updated_lead f) (js ''phone'') = trim (leadPhone f)"
  "text_of (updated_lead f) (js ''source'') = trim (leadSource f)"
  "text_of (updated_lead f) (js ''status'') = trim (leadStatus f)"
  by (simp_all add: text_of_def updated_lead_def js_def cu_of_def)

lemma first_match:
  assumes "list_ex p L"
  obtains pre l post where "L = pre @ l # post" and "p l" and "list_all (\<lambda>x. \<not> p x) pre"
proof -
  from assms have "\<exists>x\<in>set L. p x" by (simp add: list_ex_iff)
  from split_list_first_prop [OF this] obtain pre l post
    where "L = pre @ l # post" "p l" "\<forall>y\<in>set pre. \<not> p y" by blast
  then show ?thesis using that by (simp add: list_all_iff)
qed

lemma app_same_storage: "st\<lparr>localStorage := localStorage st, leadForm := f\<rparr> = st\<lparr>leadForm := f\<rparr>"
  by simp

lemma handleFormSubmit_update:
  assumes "fst (validateForm (leadForm st))" and "trim (leadId (leadForm st)) \<noteq> []"
    and "getLeads (localStorage st) = Inr (JArr L)" and "list_all is_lead L"
  shows "handleFormSubmit rt e st =
           Inr (st\<lparr>localStorage :=
                      (if list_ex (\<lambda>l. id_of l = trim (leadId (leadForm st))) L
                       then stored rt (localStorage st)
                              (JArr (replace_first (\<lambda>l. id_of l = trim (leadId (leadForm st)))
                                       (updated_lead (leadForm st)) L))
                       else localStorage st),
                    leadForm := resetForm (snd (validateForm (leadForm st)))\<rparr>)"
proof (cases "list_ex (\<lambda>l. id_of l = trim (leadId (leadForm st))) L")
  case True
  then obtain pre l post where L: "L = pre @ l # post"
    and l: "id_of l = trim (leadId (leadForm st))"
    and pre: "list_all (\<lambda>x. id_of x \<noteq> trim (leadId (leadForm st))) pre"
    by (rule first_match)
  have rf: "replace_first (\<lambda>l. id_of l = trim (leadId (leadForm st))) (updated_lead (leadForm st)) L
        = pre @ updated_lead (leadForm st) # post"
    unfolding L using pre l by (rule replace_first_split)
  have leads: "list_all is_lead pre" "is_lead l"
    using assms(4) by (simp_all add: L)
  have hs: "handleFormSubmit rt e st =
           Inr (st\<lparr>localStorage :=
                      stored rt (localStorage st) (JArr (pre @ updated_lead (leadForm st) # post)),
                    leadForm := resetForm (snd (validateForm (leadForm st)))\<rparr>)"
  proof (rule handleFormSubmit_found [OF assms(1,2) _ leads _ l])
    show "getLeads (localStorage st) = Inr (JArr (pre @ l # post))"
      using assms(3) by (simp only: L)
    show "\<forall>x\<in>set pre. id_of x \<noteq> trim (leadId (leadForm st))"
      using pre by (simp add: list_all_iff)
  qed
  show ?thesis by (simp only: hs rf True if_True)
next
  case False
  then have none: "\<forall>x\<in>set L. id_of x \<noteq> trim (leadId (leadForm st))"
    by (simp add: list_ex_iff)
  show ?thesis
    by (simp only: handleFormSubmit_missing [OF assms none] False if_False app_same_storage)
qed

lemma getLeads_stored_leads:
  assumes "list_all is_lead L'" and "getLeads st = Inr (JArr L)"
  shows "getLeads (stored rt st (JArr L'))
         = Inr (JArr (if accepts st (JSON_stringify rt (JArr L')) then L' else L))"
  using getLeads_stored [OF leads_flat [OF assms(1)] assms(2)] .

lemma resetForm_add_mode:
  "leadId (resetForm f) = []" "formTitle (resetForm f) = js ''Add New Lead''"
  "submitLabel (resetForm f) = js ''Add Lead''" "cancelShown (resetForm f) = False"
  by (simp_all add: resetForm_def clearValidation_def)

lemma handleDeleteClick_storage: "localStorage (handleDeleteClick a st) = localStorage st"
  by (simp add: handleDeleteClick_def split: option.splits)

lemma handleDeleteClick_target:
  "t \<noteq> [] \<Longrightarrow> handleDeleteClick (Some t) st =
     st\<lparr>deleteTargetId := Some t,
        modalMessage := js ''Are you sure you want to delete this lead?'', modalVisible := True\<rparr>"
  by (simp add: handleDeleteClick_def)

lemma confirmDelete_idle:
  "deleteTargetId st = None \<or> deleteTargetId st = Some [] \<Longrightarrow>
   confirmDelete rt st = Inr (st\<lparr>modalVisible := False\<rparr>)"
  by (auto simp: confirmDelete_def)

lemma filter_leads: "list_all is_lead L \<Longrightarrow> list_all is_lead (filter p L)"
  by (simp add: list_all_iff)

text \<open>
  C8. Clicking delete only records the target: the storage is untouched, and it stays
  untouched when the dialog is cancelled, which clears the target, so that a later
  confirmation does nothing. Confirming hands \<open>saveLeads\<close> the collection without the
  records of that id, clears the target and resets the form to add mode; the collection
  loaded afterwards is the reduced one when the storage took the write.
\<close>

theorem delete_only_on_confirmation:
  assumes "getLeads (localStorage st) = Inr (JArr L)" and "list_all is_lead L" and "t \<noteq> []"
  shows "localStorage (handleDeleteClick a st) = localStorage st \<and>
         deleteTargetId (handleDeleteClick (Some t) st) = Some t \<and>
         localStorage (cancelModal (handleDeleteClick (Some t) st)) = localStorage st \<and>
         deleteTargetId (cancelModal (handleDeleteClick (Some t) st)) = None \<and>
         confirmDelete rt (cancelModal (handleDeleteClick (Some t) st))
           = Inr (cancelModal (handleDeleteClick (Some t) st)) \<and>
         (\<exists>st'. confirmDelete rt (handleDeleteClick (Some t) st) = Inr st' \<and>
            localStorage st' = stored rt (localStorage st) (JArr (filter (\<lambda>l. id_of l \<noteq> t) L)) \<and>
            getLeads (localStorage st')
              = Inr (JArr (if accepts (localStorage st)
                                (JSON_stringify rt (JArr (filter (\<lambda>l. id_of l \<noteq> t) L)))
                           then filter (\<lambda>l. id_of l \<noteq> t) L else L)) \<and>
            deleteTargetId st' = None \<and>
            leadForm st' = resetForm (leadForm st) \<and>
            leadId (leadForm st') = [] \<and>
            formTitle (leadForm st') = js ''Add New Lead'' \<and>
            submitLabel (leadForm st') = js ''Add Lead'')"
proof -
  let ?clicked = "handleDeleteClick (Some t) st"
  have clicked: "deleteTargetId ?clicked = Some t" "localStorage ?clicked = localStorage st"
    "leadForm ?clicked = leadForm st"
    using assms(3) by (simp_all add: handleDeleteClick_target)
  have cancelled: "localStorage (cancelModal ?clicked) = localStorage st"
    "deleteTargetId (cancelModal ?clicked) = None"
    using clicked by (simp_all add: cancelModal_def)
  have idle: "confirmDelete rt (cancelModal ?clicked) = Inr (cancelModal ?clicked)"
    using confirmDelete_idle [of "cancelModal ?clicked" rt] cancelled(2)
    by (simp add: cancelModal_def)
  have confirmed: "confirmDelete rt ?clicked =
      Inr (?clicked\<lparr>localStorage :=
                       stored rt (localStorage ?clicked) (JArr (filter (\<lambda>l. id_of l \<noteq> t) L)),
                     deleteTargetId := None, modalVisible := False,
                     leadForm := resetForm (leadForm ?clicked)\<rparr>)"
    using clicked assms by (intro confirmDelete_leads) simp_all
  have loaded: "getLeads (stored rt (localStorage st) (JArr (filter (\<lambda>l. id_of l \<noteq> t) L)))
      = Inr (JArr (if accepts (localStorage st)
                        (JSON_stringify rt (JArr (filter (\<lambda>l. id_of l \<noteq> t) L)))
                   then filter (\<lambda>l. id_of l \<noteq> t) L else L))"
    using assms(1,2) by (intro getLeads_stored_leads filter_leads)
  show ?thesis
    using handleDeleteClick_storage [of a st] clicked cancelled idle loaded
    by (simp add: confirmed resetForm_add_mode del: JSON_stringify.simps)
qed

text \<open>
  C4. A valid form with a non-empty id, on a collection of leads: when a record has that
  id, the first such record is replaced, at its position, by the record of the form (same
  id, the four trimmed fields) and the collection is handed to \<open>saveLeads\<close>; when no
  record has it, the handler returns without an exception and the storage is unchanged.
\<close>

theorem update_replaces_first_or_nothing:
  assumes "fst (validateForm (leadForm st))"
    and "trim (leadId (leadForm st)) = ident" and "ident \<noteq> []"
    and "getLeads (localStorage st) = Inr (JArr L)" and "list_all is_lead L"
  shows "\<exists>st'. handleFormSubmit rt e st = Inr st' \<and>
           localStorage st' =
             (if list_ex (\<lambda>l. id_of l = ident) L
              then stored rt (localStorage st)
                     (JArr (replace_first (\<lambda>l. id_of l = ident) (updated_lead (leadForm st)) L))
              else localStorage st) \<and>
           getLeads (localStorage st') =
             Inr (JArr (if list_ex (\<lambda>l. id_of l = ident) L \<and>
                           accepts (localStorage st)
                             (JSON_stringify rt
                                (JArr (replace_first (\<lambda>l. id_of l = ident)
                                         (updated_lead (leadForm st)) L)))
                        then replace_first (\<lambda>l. id_of l = ident) (updated_lead (leadForm st)) L
                        else L)) \<and>
           length (replace_first (\<lambda>l. id_of l = ident) (updated_lead (leadForm st)) L) = length L \<and>
           id_of (updated_lead (leadForm st)) = ident \<and>
           text_of (updated_lead (leadForm st)) (js ''name'') = trim (leadName (leadForm st)) \<and>
           text_of (updated_lead (leadForm st)) (js ''phone'') = trim (leadPhone (leadForm st)) \<and>
           text_of (updated_lead (leadForm st)) (js ''source'') = trim (leadSource (leadForm st)) \<and>
           text_of (updated_lead (leadForm st)) (js ''status'') = trim (leadStatus (leadForm st))"
proof -
  let ?new = "replace_first (\<lambda>l. id_of l = ident) (updated_lead (leadForm st)) L"
  have hs: "handleFormSubmit rt e st =
           Inr (st\<lparr>localStorage :=
                      (if list_ex (\<lambda>l. id_of l = ident) L
                       then stored rt (localStorage st) (JArr ?new) else localStorage st),
                    leadForm := resetForm (snd (validateForm (leadForm st)))\<rparr>)"
    using handleFormSubmit_update [OF assms(1) _ assms(4,5), of rt e] assms(2,3) by simp
  have new: "list_all is_lead ?new"
    using assms(5) by (intro replace_first_all) (simp_all add: is_lead_updated)
  have loaded: "getLeads (stored rt (localStorage st) (JArr ?new))
      = Inr (JArr (if accepts (localStorage st) (JSON_stringify rt (JArr ?new)) then ?new else L))"
    using new assms(4) by (rule getLeads_stored_leads)
  show ?thesis
    using assms(2,4) loaded
    by (simp add: hs replace_first_length id_of_updated updated_fields del: JSON_stringify.simps)
qed

text \<open>
  C10. When more than one record has the id \<open>t\<close>: a confirmed delete of \<open>t\<close> saves
  the collection without any record of that id, the other records kept; an update with
  \<open>t\<close> replaces the first record of that id and leaves the records after it as they
  were, a duplicate among them.
\<close>

theorem duplicates_delete_all_update_first:
  assumes "getLeads (localStorage st) = Inr (JArr L)" and "list_all is_lead L"
    and "t \<noteq> []" and "1 < length (filter (\<lambda>l. id_of l = t) L)"
    and "fst (validateForm (leadForm st))" and "trim (leadId (leadForm st)) = t"
  shows "(\<exists>st'. confirmDelete rt (handleDeleteClick (Some t) st) = Inr st' \<and>
            localStorage st' = stored rt (localStorage st) (JArr (filter (\<lambda>l. id_of l \<noteq> t) L)) \<and>
            list_all (\<lambda>l. id_of l \<noteq> t) (filter (\<lambda>l. id_of l \<noteq> t) L) \<and>
            length (filter (\<lambda>l. id_of l \<noteq> t) L) + length (filter (\<lambda>l. id_of l = t) L) = length L) \<and>
         (\<exists>st' pre l post. L = pre @ l # post \<and>
            list_all (\<lambda>x. id_of x \<noteq> t) pre \<and> id_of l = t \<and> list_ex (\<lambda>x. id_of x = t) post \<and>
            handleFormSubmit rt e st = Inr st' \<and>
            localStorage st' =
              stored rt (localStorage st) (JArr (pre @ updated_lead (leadForm st) # post)) \<and>
            id_of (updated_lead (leadForm st)) = t)"
proof -
  let ?clicked = "handleDeleteClick (Some t) st"
  have clicked: "deleteTargetId ?clicked = Some t" "localStorage ?clicked = localStorage st"
    using assms(3) by (simp_all add: handleDeleteClick_target)
  have "confirmDelete rt ?clicked =
      Inr (?clicked\<lparr>localStorage :=
                       stored rt (localStorage ?clicked) (JArr (filter (\<lambda>l. id_of l \<noteq> t) L)),
                     deleteTargetId := None, modalVisible := False,
                     leadForm := resetForm (leadForm ?clicked)\<rparr>)"
    using clicked assms(1-3) by (intro confirmDelete_leads) simp_all
  moreover have "length (filter (\<lambda>l. id_of l \<noteq> t) L) + length (filter (\<lambda>l. id_of l = t) L) = length L"
    using sum_length_filter_compl [of "\<lambda>l. id_of l = t" L] by simp
  ultimately have deleted: "\<exists>st'. confirmDelete rt ?clicked = Inr st' \<and>
            localStorage st' = stored rt (localStorage st) (JArr (filter (\<lambda>l. id_of l \<noteq> t) L)) \<and>
            list_all (\<lambda>l. id_of l \<noteq> t) (filter (\<lambda>l. id_of l \<noteq> t) L) \<and>
            length (filter (\<lambda>l. id_of l \<noteq> t) L) + length (filter (\<lambda>l. id_of l = t) L) = length L"
    using clicked by (simp add: list_all_iff)
  have "filter (\<lambda>l. id_of l = t) L \<noteq> []" using assms(4) by auto
  then have "list_ex (\<lambda>l. id_of l = t) L"
    by (simp add: list_ex_iff filter_empty_conv)
  then obtain pre l post where L: "L = pre @ l # post" and l: "id_of l = t"
    and pre: "list_all (\<lambda>x. id_of x \<noteq> t) pre"
    by (rule first_match)
  have "filter (\<lambda>l. id_of l = t) pre = []"
    using pre by (simp add: list_all_iff filter_empty_conv)
  then have "filter (\<lambda>l. id_of l = t) L = l # filter (\<lambda>l. id_of l = t) post"
    using l by (simp add: L)
  with assms(4) have "filter (\<lambda>l. id_of l = t) post \<noteq> []" by auto
  then have post: "list_ex (\<lambda>x. id_of x = t) post"
    by (simp add: list_ex_iff filter_empty_conv)
  have leads: "list_all is_lead pre" "is_lead l" using assms(2) by (simp_all add: L)
  have "handleFormSubmit rt e st =
           Inr (st\<lparr>localStorage :=
                      stored rt (localStorage st) (JArr (pre @ updated_lead (leadForm st) # post)),
                    leadForm := resetForm (snd (validateForm (leadForm st)))\<rparr>)"
  proof (rule handleFormSubmit_found [OF assms(5) _ _ leads])
    show "trim (leadId (leadForm st)) \<noteq> []" using assms(3,6) by simp
    show "getLeads (localStorage st) = Inr (JArr (pre @ l # post))" using assms(1) by (simp only: L)
    show "\<forall>x\<in>set pre. id_of x \<noteq> trim (leadId (leadForm st))"
      using pre assms(6) by (simp add: list_all_iff)
    show "id_of l = trim (leadId (leadForm st))" using l assms(6) by simp
  qed
  then have updated: "\<exists>st' pre l post. L = pre @ l # post \<and>
            list_all (\<lambda>x. id_of x \<noteq> t) pre \<and> id_of l = t \<and> list_ex (\<lambda>x. id_of x = t) post \<and>
            handleFormSubmit rt e st = Inr st' \<and>
            localStorage st' =
              stored rt (localStorage st) (JArr (pre @ updated_lead (leadForm st) # post)) \<and>
            id_of (updated_lead (leadForm st)) = t"
    using L l pre post assms(6) by (auto simp: id_of_updated simp del: JSON_stringify.simps)
  from deleted updated show ?thesis by (rule conjI)
qed

lemma distinct_filter_ids: "distinct (map id_of L) \<Longrightarrow> distinct (map id_of (filter p L))"
  by (rule distinct_map_filter)

text \<open>
  C9, as amended. On a collection of leads with pairwise distinct ids, a submission (an
  insertion whose generated id differs from every id of the collection, or an update) and
  a confirmation of a delete leave a collection of leads with pairwise distinct ids.
\<close>

theorem ids_stay_distinct:
  assumes "getLeads (localStorage st) = Inr (JArr L)" and "list_all is_lead L"
    and "distinct (map id_of L)"
    and "trim (leadId (leadForm st)) = [] \<longrightarrow> generateId e \<notin> set (map id_of L)"
  shows "(\<exists>st' L'. handleFormSubmit rt e st = Inr st' \<and>
            getLeads (localStorage st') = Inr (JArr L') \<and>
            list_all is_lead L' \<and> distinct (map id_of L')) \<and>
         (\<exists>st' L'. confirmDelete rt st = Inr st' \<and>
            getLeads (localStorage st') = Inr (JArr L') \<and>
            list_all is_lead L' \<and> distinct (map id_of L'))"
proof (rule conjI)
  let ?ident = "trim (leadId (leadForm st))"
  show "\<exists>st' L'. handleFormSubmit rt e st = Inr st' \<and>
            getLeads (localStorage st') = Inr (JArr L') \<and>
            list_all is_lead L' \<and> distinct (map id_of L')"
  proof (cases "fst (validateForm (leadForm st))")
    case False
    then show ?thesis
      using assms(1-3) by (simp add: handleFormSubmit_invalid)
  next
    case True
    show ?thesis
    proof (cases "?ident = []")
      case True
      let ?new = "L @ [added_lead e (leadForm st)]"
      have new: "list_all is_lead ?new" using assms(2) by (simp add: is_lead_added)
      have ids: "distinct (map id_of ?new)"
        using assms(3,4) True by (simp add: id_of_added)
      have "getLeads (stored rt (localStorage st) (JArr ?new))
        = Inr (JArr (if accepts (localStorage st) (JSON_stringify rt (JArr ?new)) then ?new else L))"
        using new assms(1) by (rule getLeads_stored_leads)
      then show ?thesis
        using handleFormSubmit_add [OF \<open>fst (validateForm (leadForm st))\<close> True assms(1), of rt e]
          new ids assms(2,3)
        by (cases "accepts (localStorage st) (JSON_stringify rt (JArr ?new))")
           (simp_all del: JSON_stringify.simps)
    next
      case False
      let ?new = "replace_first (\<lambda>l. id_of l = ?ident) (updated_lead (leadForm st)) L"
      have new: "list_all is_lead ?new"
        using assms(2) by (intro replace_first_all) (simp_all add: is_lead_updated)
      have ids: "distinct (map id_of ?new)"
        using assms(3) by (simp add: replace_first_ids id_of_updated)
      have "getLeads (stored rt (localStorage st) (JArr ?new))
        = Inr (JArr (if accepts (localStorage st) (JSON_stringify rt (JArr ?new)) then ?new else L))"
        using new assms(1) by (rule getLeads_stored_leads)
      then show ?thesis
        using handleFormSubmit_update [OF True False assms(1,2), of rt e] new ids assms(1-3)
        by (cases "accepts (localStorage st) (JSON_stringify rt (JArr ?new))")
           (simp_all del: JSON_stringify.simps)
    qed
  qed
next
  show "\<exists>st' L'. confirmDelete rt st = Inr st' \<and>
            getLeads (localStorage st') = Inr (JArr L') \<and>
            list_all is_lead L' \<and> distinct (map id_of L')"
  proof (cases "deleteTargetId st = None \<or> deleteTargetId st = Some []")
    case True
    then show ?thesis using assms(1-3) by (simp add: confirmDelete_idle)
  next
    case False
    then obtain t where t: "deleteTargetId st = Some t" "t \<noteq> []" by auto
    let ?new = "filter (\<lambda>l. id_of l \<noteq> t) L"
    have new: "list_all is_lead ?new" using assms(2) by (rule filter_leads)
    have ids: "distinct (map id_of ?new)" using assms(3) by (rule distinct_filter_ids)
    have "getLeads (stored rt (localStorage st) (JArr ?new))
      = Inr (JArr (if accepts (localStorage st) (JSON_stringify rt (JArr ?new)) then ?new else L))"
      using new assms(1) by (rule getLeads_stored_leads)
    then show ?thesis
      using confirmDelete_leads [OF t assms(1,2), of rt] new ids assms(2,3)
      by (cases "accepts (localStorage st) (JSON_stringify rt (JArr ?new))")
         (simp_all del: JSON_stringify.simps)
  qed
qed

section \<open>The handlers on examples\<close>

lemmas validator_eval = validateForm_def validateName_def validatePhone_def validateSource_def
  validateStatus_def regex_test_phone phone_pattern_def phone_char_def is_digit_def trim_def
  is_white_space_def blank_form_def js_def cu_of_def

lemma edit_form_valid: "fst (validateForm edit_form)"
  by (simp add: edit_form_def validator_eval)

lemma new_form_valid: "fst (validateForm new_form)"
  by (simp add: new_form_def validator_eval)

lemma edit_form_id: "trim (leadId edit_form) = js ''x''"
  by (simp add: edit_form_def validator_eval)

lemma new_form_id: "trim (leadId new_form) = []"
  by (simp add: new_form_def validator_eval)

lemma id_of_jo: "id_of lead_jo = js ''lead_1700000000000_4fzyo82''"
  by (simp add: id_of_def text_of_def lead_jo_def js_def cu_of_def)

lemma id_of_ann: "id_of lead_ann = js ''x''"
  by (simp add: id_of_def text_of_def lead_ann_def)

lemma id_of_ann_twin: "id_of lead_ann_twin = js ''x''"
  by (simp add: id_of_def text_of_def lead_ann_twin_def)

lemma is_lead_ann_twin: "is_lead lead_ann_twin"
  by (simp add: lead_ann_twin_def lead_keys_simps) (simp add: js_def cu_of_def)

lemma generateId_example: "generateId example_entropy = js ''lead_1700000000000_4fzyo82''"
  by (simp add: generateId_def example_entropy_def integer_text_def js_def cu_of_def)

lemma example_loaded: "list_all is_lead L \<Longrightarrow> getLeads (example_storage L) = Inr (JArr L)"
  by (rule getLeads_written [OF leads_flat, of _ _ example_runtime])
     (simp_all add: example_storage_def)

lemma big_lead_flat: "flat_record big_lead"
  by (simp add: big_lead_def is_array_index_def js_def cu_of_def is_digit_def)

lemma quote_body_letters: "quote_body (replicate n 0x61) = replicate n 0x61"
  by (rule quote_body_ascii) (simp add: list_all_iff)

lemma big_lead_refused:
  "\<not> accepts (example_storage []) (JSON_stringify example_runtime (JArr [big_lead]))"
  by (simp add: accepts_def example_storage_def big_lead_def quote_def quote_body_letters)

text \<open>
  C5 as stated fails where the write fails. A collection whose text is longer than the
  storage has room for is not stored: \<open>saveLeads\<close> swallows the exception, and loading
  yields what was there before. On a full storage area the same happens to a single lead.
\<close>

theorem save_then_load_counterexample:
  "list_all flat_record [big_lead] \<and>
   getLeads (example_storage []) = Inr (JArr []) \<and>
   saveLeads example_runtime (example_storage []) (JArr [big_lead]) = Inr (example_storage []) \<and>
   list_all flat_record [lead_jo] \<and>
   saveLeads example_runtime full_storage (JArr [lead_jo]) = Inr full_storage \<and>
   getLeads full_storage = Inr (JArr []) \<and>
   JArr [] \<noteq> JArr [big_lead] \<and> JArr [] \<noteq> JArr [lead_jo]"
proof -
  have "list_all flat_record [big_lead]" by (simp add: big_lead_flat)
  moreover have "getLeads (example_storage []) = Inr (JArr [])"
    by (rule example_loaded) simp
  moreover have "saveLeads example_runtime (example_storage []) (JArr [big_lead]) = Inr (example_storage [])"
    using big_lead_refused by (simp add: saveLeads_stored stored_def del: JSON_stringify.simps)
  moreover have "list_all flat_record [lead_jo]" by (simp add: is_lead_flat is_lead_jo)
  moreover have "saveLeads example_runtime full_storage (JArr [lead_jo]) = Inr full_storage"
    by (simp add: saveLeads_stored stored_def accepts_def full_storage_def)
  moreover have "getLeads full_storage = Inr (JArr [])"
    by (simp add: getLeads_cases full_storage_def)
  ultimately show ?thesis by simp
qed

lemma updated_edit_form:
  "updated_lead edit_form =
     JObj [(js ''id'', JStr (js ''x'')), (js ''name'', JStr (js ''Ann Lee'')),
           (js ''phone'', JStr (js ''555-0000000'')), (js ''source'', JStr (js ''referral'')),
           (js ''status'', JStr (js ''lost''))]"
  by (simp add: updated_lead_def edit_form_def validator_eval)

lemma added_new_form:
  "added_lead example_entropy new_form =
     JObj [(js ''name'', JStr (js ''Al Poe'')), (js ''phone'', JStr (js ''(555) 765-4321'')),
           (js ''source'', JStr (js ''referral'')), (js ''status'', JStr (js ''new'')),
           (js ''id'', JStr (js ''lead_1700000000000_4fzyo82''))]"
  by (simp add: added_lead_def new_form_def generateId_example) (simp add: validator_eval)

lemma accepts_example: "length t \<le> 5000000 \<Longrightarrow> accepts (example_storage L) t"
  by (simp add: accepts_def example_storage_def)

lemma example_app_simps:
  "localStorage (example_app L f) = example_storage L" "leadForm (example_app L f) = f"
  "deleteTargetId (example_app L f) = None"
  by (simp_all add: example_app_def)

lemma unlike_ids: "js ''lead_1700000000000_4fzyo82'' \<noteq> js ''x''"
  by (simp add: js_def)

text \<open>
  An edit of the lead \<open>x\<close> replaces the second record of the stored list; on a list
  without that id the same submission leaves the storage as it was.
\<close>

theorem update_replaces_first_or_nothing_witness:
  "fst (validateForm (leadForm (example_app [lead_jo, lead_ann] edit_form))) \<and>
   trim (leadId (leadForm (example_app [lead_jo, lead_ann] edit_form))) = js ''x'' \<and>
   js ''x'' \<noteq> [] \<and>
   getLeads (localStorage (example_app [lead_jo, lead_ann] edit_form)) = Inr (JArr [lead_jo, lead_ann]) \<and>
   list_all is_lead [lead_jo, lead_ann] \<and>
   (\<exists>st'. handleFormSubmit example_runtime example_entropy (example_app [lead_jo, lead_ann] edit_form)
            = Inr st' \<and>
          getLeads (localStorage st') = Inr (JArr [lead_jo, updated_lead edit_form])) \<and>
   getLeads (localStorage (example_app [lead_jo] edit_form)) = Inr (JArr [lead_jo]) \<and>
   (\<exists>st'. handleFormSubmit example_runtime example_entropy (example_app [lead_jo] edit_form) = Inr st' \<and>
          localStorage st' = localStorage (example_app [lead_jo] edit_form) \<and>
          getLeads (localStorage st') = Inr (JArr [lead_jo]))"
proof -
  let ?st = "example_app [lead_jo, lead_ann] edit_form"
  let ?st2 = "example_app [lead_jo] edit_form"
  have valid: "fst (validateForm (leadForm ?st))" "fst (validateForm (leadForm ?st2))"
    by (simp_all add: example_app_simps edit_form_valid)
  have ident: "trim (leadId (leadForm ?st)) = js ''x''" "trim (leadId (leadForm ?st2)) = js ''x''"
    by (simp_all add: example_app_simps edit_form_id)
  have x: "js ''x'' \<noteq> []" by (simp add: js_def)
  have leads: "list_all is_lead [lead_jo, lead_ann]" "list_all is_lead [lead_jo]"
    by (simp_all add: is_lead_jo is_lead_ann)
  have loaded: "getLeads (localStorage ?st) = Inr (JArr [lead_jo, lead_ann])"
    "getLeads (localStorage ?st2) = Inr (JArr [lead_jo])"
    using leads by (simp_all add: example_app_simps example_loaded)
  have found: "list_ex (\<lambda>l. id_of l = js ''x'') [lead_jo, lead_ann]"
    "\<not> list_ex (\<lambda>l. id_of l = js ''x'') [lead_jo]"
    by (simp_all add: id_of_jo id_of_ann unlike_ids)
  have replaced: "replace_first (\<lambda>l. id_of l = js ''x'') (updated_lead edit_form) [lead_jo, lead_ann]
                  = [lead_jo, updated_lead edit_form]"
    by (simp add: id_of_jo id_of_ann unlike_ids)
  have room: "accepts (localStorage ?st)
                (JSON_stringify example_runtime (JArr [lead_jo, updated_lead edit_form]))"
    unfolding example_app_simps
    by (rule accepts_example) (simp add: updated_edit_form example_eval)
  from update_replaces_first_or_nothing [OF valid(1) ident(1) x loaded(1) leads(1),
      of example_runtime example_entropy]
  obtain st' where "handleFormSubmit example_runtime example_entropy ?st = Inr st'"
    and "getLeads (localStorage st') =
           Inr (JArr (if list_ex (\<lambda>l. id_of l = js ''x'') [lead_jo, lead_ann] \<and>
                         accepts (localStorage ?st)
                           (JSON_stringify example_runtime
                              (JArr (replace_first (\<lambda>l. id_of l = js ''x'')
                                       (updated_lead (leadForm ?st)) [lead_jo, lead_ann])))
                      then replace_first (\<lambda>l. id_of l = js ''x'')
                             (updated_lead (leadForm ?st)) [lead_jo, lead_ann]
                      else [lead_jo, lead_ann]))"
    by blast
  then have one: "\<exists>st'. handleFormSubmit example_runtime example_entropy ?st = Inr st' \<and>
          getLeads (localStorage st') = Inr (JArr [lead_jo, updated_lead edit_form])"
    using room by (simp only: example_app_simps replaced found(1) simp_thms if_True) blast
  from update_replaces_first_or_nothing [OF valid(2) ident(2) x loaded(2) leads(2),
      of example_runtime example_entropy]
  obtain st2' where "handleFormSubmit example_runtime example_entropy ?st2 = Inr st2'"
    and "localStorage st2' =
           (if list_ex (\<lambda>l. id_of l = js ''x'') [lead_jo]
            then stored example_runtime (localStorage ?st2)
                   (JArr (replace_first (\<lambda>l. id_of l = js ''x'')
                            (updated_lead (leadForm ?st2)) [lead_jo]))
            else localStorage ?st2)"
    by blast
  then have two: "\<exists>st'. handleFormSubmit example_runtime example_entropy ?st2 = Inr st' \<and>
          localStorage st' = localStorage ?st2 \<and> getLeads (localStorage st') = Inr (JArr [lead_jo])"
    using loaded(2) by (simp only: found(2) if_False) simp
  from valid(1) ident(1) x loaded leads(1) one two show ?thesis by blast
qed

text \<open>
  Deleting the lead \<open>x\<close>: cancelling keeps the storage, confirming leaves the other lead.
\<close>

theorem delete_only_on_confirmation_witness:
  "getLeads (localStorage (example_app [lead_jo, lead_ann] edit_form)) = Inr (JArr [lead_jo, lead_ann]) \<and>
   list_all is_lead [lead_jo, lead_ann] \<and>
   js ''x'' \<noteq> [] \<and>
   localStorage (cancelModal (handleDeleteClick (Some (js ''x'')) (example_app [lead_jo, lead_ann] edit_form)))
     = localStorage (example_app [lead_jo, lead_ann] edit_form) \<and>
   (\<exists>st'. confirmDelete example_runtime
            (handleDeleteClick (Some (js ''x'')) (example_app [lead_jo, lead_ann] edit_form)) = Inr st' \<and>
          getLeads (localStorage st') = Inr (JArr [lead_jo]) \<and>
          deleteTargetId st' = None \<and> leadId (leadForm st') = [])"
proof -
  let ?st = "example_app [lead_jo, lead_ann] edit_form"
  have x: "js ''x'' \<noteq> []" by (simp add: js_def)
  have leads: "list_all is_lead [lead_jo, lead_ann]" by (simp add: is_lead_jo is_lead_ann)
  have loaded: "getLeads (localStorage ?st) = Inr (JArr [lead_jo, lead_ann])"
    using leads by (simp add: example_app_simps example_loaded)
  have kept: "filter (\<lambda>l. id_of l \<noteq> js ''x'') [lead_jo, lead_ann] = [lead_jo]"
    by (simp add: id_of_jo id_of_ann unlike_ids)
  have room: "accepts (localStorage ?st) (JSON_stringify example_runtime (JArr [lead_jo]))"
    unfolding example_app_simps by (rule accepts_example) (simp add: example_eval)
  note inst = delete_only_on_confirmation [OF loaded leads x, of "Some (js ''x'')" example_runtime]
  from inst have cancelled: "localStorage (cancelModal (handleDeleteClick (Some (js ''x'')) ?st))
      = localStorage ?st"
    by blast
  from inst obtain st' where "confirmDelete example_runtime (handleDeleteClick (Some (js ''x'')) ?st) = Inr st'"
    and "getLeads (localStorage st')
           = Inr (JArr (if accepts (localStorage ?st)
                             (JSON_stringify example_runtime
                                (JArr (filter (\<lambda>l. id_of l \<noteq> js ''x'') [lead_jo, lead_ann])))
                        then filter (\<lambda>l. id_of l \<noteq> js ''x'') [lead_jo, lead_ann]
                        else [lead_jo, lead_ann]))"
    and "deleteTargetId st' = None" and "leadId (leadForm st') = []"
    by blast
  then have "\<exists>st'. confirmDelete example_runtime (handleDeleteClick (Some (js ''x'')) ?st) = Inr st' \<and>
          getLeads (localStorage st') = Inr (JArr [lead_jo]) \<and>
          deleteTargetId st' = None \<and> leadId (leadForm st') = []"
    using room by (simp only: kept simp_thms if_True) blast
  with loaded leads x cancelled show ?thesis by blast
qed

text \<open>
  With two records of the id \<open>x\<close>, a delete saves the list without both, an update
  saves the list with only the first of them replaced.
\<close>

theorem duplicates_delete_all_update_first_witness:
  "getLeads (localStorage (example_app [lead_ann, lead_jo, lead_ann_twin] edit_form))
     = Inr (JArr [lead_ann, lead_jo, lead_ann_twin]) \<and>
   list_all is_lead [lead_ann, lead_jo, lead_ann_twin] \<and>
   js ''x'' \<noteq> [] \<and>
   1 < length (filter (\<lambda>l. id_of l = js ''x'') [lead_ann, lead_jo, lead_ann_twin]) \<and>
   fst (validateForm (leadForm (example_app [lead_ann, lead_jo, lead_ann_twin] edit_form))) \<and>
   trim (leadId (leadForm (example_app [lead_ann, lead_jo, lead_ann_twin] edit_form))) = js ''x'' \<and>
   (\<exists>st'. confirmDelete example_runtime
            (handleDeleteClick (Some (js ''x''))
               (example_app [lead_ann, lead_jo, lead_ann_twin] edit_form)) = Inr st' \<and>
          localStorage st' =
            stored example_runtime (example_storage [lead_ann, lead_jo, lead_ann_twin])
              (JArr [lead_jo])) \<and>
   (\<exists>st'. handleFormSubmit example_runtime example_entropy
            (example_app [lead_ann, lead_jo, lead_ann_twin] edit_form) = Inr st' \<and>
          localStorage st' =
            stored example_runtime (example_storage [lead_ann, lead_jo, lead_ann_twin])
              (JArr [updated_lead edit_form, lead_jo, lead_ann_twin]))"
proof -
  let ?L = "[lead_ann, lead_jo, lead_ann_twin]"
  let ?st = "example_app ?L edit_form"
  have x: "js ''x'' \<noteq> []" by (simp add: js_def)
  have leads: "list_all is_lead ?L" by (simp add: is_lead_jo is_lead_ann is_lead_ann_twin)
  have loaded: "getLeads (localStorage ?st) = Inr (JArr ?L)"
    using leads by (simp add: example_app_simps example_loaded)
  have twice: "1 < length (filter (\<lambda>l. id_of l = js ''x'') ?L)"
    by (simp add: id_of_jo id_of_ann id_of_ann_twin unlike_ids)
  have valid: "fst (validateForm (leadForm ?st))" by (simp add: example_app_simps edit_form_valid)
  have ident: "trim (leadId (leadForm ?st)) = js ''x''" by (simp add: example_app_simps edit_form_id)
  have kept: "filter (\<lambda>l. id_of l \<noteq> js ''x'') ?L = [lead_jo]"
    by (simp add: id_of_jo id_of_ann id_of_ann_twin unlike_ids)
  note inst = duplicates_delete_all_update_first [OF loaded leads x twice valid ident,
      of example_runtime example_entropy]
  from inst obtain st1 where "confirmDelete example_runtime (handleDeleteClick (Some (js ''x'')) ?st) = Inr st1"
    and "localStorage st1 = stored example_runtime (localStorage ?st)
           (JArr (filter (\<lambda>l. id_of l \<noteq> js ''x'') ?L))"
    by blast
  then have deleted: "\<exists>st'. confirmDelete example_runtime (handleDeleteClick (Some (js ''x'')) ?st) = Inr st' \<and>
          localStorage st' = stored example_runtime (example_storage ?L) (JArr [lead_jo])"
    by (simp only: kept example_app_simps) blast
  from inst obtain st2 pre l post where split: "?L = pre @ l # post"
    and pre: "list_all (\<lambda>x. id_of x \<noteq> js ''x'') pre"
    and hs: "handleFormSubmit example_runtime example_entropy ?st = Inr st2"
    and st2: "localStorage st2 = stored example_runtime (localStorage ?st)
                (JArr (pre @ updated_lead (leadForm ?st) # post))"
    by blast
  have "pre = []"
  proof (cases pre)
    case Nil
    then show ?thesis .
  next
    case (Cons p pre')
    with split have "p = lead_ann" by simp
    with pre Cons show ?thesis by (simp add: id_of_ann)
  qed
  with split have "post = [lead_jo, lead_ann_twin]" by simp
  with \<open>pre = []\<close> hs st2 have updated: "\<exists>st'. handleFormSubmit example_runtime example_entropy ?st = Inr st' \<and>
          localStorage st' = stored example_runtime (example_storage ?L)
            (JArr [updated_lead edit_form, lead_jo, lead_ann_twin])"
    by (simp add: example_app_simps del: JSON_stringify.simps)
  from loaded leads x twice valid ident deleted updated show ?thesis by blast
qed

text \<open>
  An insertion with an id that is not in the list.
\<close>

theorem ids_stay_distinct_witness:
  "getLeads (localStorage (example_app [lead_ann] new_form)) = Inr (JArr [lead_ann]) \<and>
   list_all is_lead [lead_ann] \<and>
   distinct (map id_of [lead_ann]) \<and>
   trim (leadId (leadForm (example_app [lead_ann] new_form))) = [] \<and>
   generateId example_entropy \<notin> set (map id_of [lead_ann]) \<and>
   (\<exists>st' L'. handleFormSubmit example_runtime example_entropy (example_app [lead_ann] new_form)
               = Inr st' \<and>
             getLeads (localStorage st') = Inr (JArr L') \<and>
             list_all is_lead L' \<and> distinct (map id_of L')) \<and>
   (\<exists>st' L'. confirmDelete example_runtime (example_app [lead_ann] new_form) = Inr st' \<and>
             getLeads (localStorage st') = Inr (JArr L') \<and>
             list_all is_lead L' \<and> distinct (map id_of L'))"
proof -
  let ?st = "example_app [lead_ann] new_form"
  have leads: "list_all is_lead [lead_ann]" by (simp add: is_lead_ann)
  have loaded: "getLeads (localStorage ?st) = Inr (JArr [lead_ann])"
    using leads by (simp add: example_app_simps example_loaded)
  have ids: "distinct (map id_of [lead_ann])" by simp
  have blank: "trim (leadId (leadForm ?st)) = []" by (simp add: example_app_simps new_form_id)
  have fresh: "generateId example_entropy \<notin> set (map id_of [lead_ann])"
    by (simp add: generateId_example id_of_ann unlike_ids)
  from fresh have cond: "trim (leadId (leadForm ?st)) = [] \<longrightarrow>
      generateId example_entropy \<notin> set (map id_of [lead_ann])"
    by simp
  from ids_stay_distinct [OF loaded leads ids cond, of example_runtime] loaded leads ids blank fresh
  show ?thesis by blast
qed

text \<open>
  C9 as stated fails when \<open>generateId\<close> draws an id that is already in the list: the
  clock and the random draw that produced the id of the stored lead produce it again, the
  handler appends the new record without any check, and the list loaded afterwards has
  two records with one id.
\<close>

theorem ids_stay_distinct_counterexample:
  "getLeads (localStorage (example_app [lead_jo] new_form)) = Inr (JArr [lead_jo]) \<and>
   list_all is_lead [lead_jo] \<and>
   distinct (map id_of [lead_jo]) \<and>
   fst (validateForm (leadForm (example_app [lead_jo] new_form))) \<and>
   trim (leadId (leadForm (example_app [lead_jo] new_form))) = [] \<and>
   handleFormSubmit example_runtime example_entropy (example_app [lead_jo] new_form)
     = Inr ((example_app [lead_jo] new_form)
              \<lparr>localStorage :=
                 stored example_runtime (example_storage [lead_jo])
                   (JArr [lead_jo, added_lead example_entropy new_form]),
               leadForm := resetForm (snd (validateForm new_form))\<rparr>) \<and>
   getLeads (stored example_runtime (example_storage [lead_jo])
               (JArr [lead_jo, added_lead example_entropy new_form]))
     = Inr (JArr [lead_jo, added_lead example_entropy new_form]) \<and>
   id_of (added_lead example_entropy new_form) = id_of lead_jo \<and>
   \<not> distinct (map id_of [lead_jo, added_lead example_entropy new_form])"
proof -
  let ?st = "example_app [lead_jo] new_form"
  let ?new = "[lead_jo, added_lead example_entropy new_form]"
  have leads: "list_all is_lead [lead_jo]" by (simp add: is_lead_jo)
  have loaded: "getLeads (localStorage ?st) = Inr (JArr [lead_jo])"
    using leads by (simp add: example_app_simps example_loaded)
  have valid: "fst (validateForm (leadForm ?st))" by (simp add: example_app_simps new_form_valid)
  have blank: "trim (leadId (leadForm ?st)) = []" by (simp add: example_app_simps new_form_id)
  have submitted: "handleFormSubmit example_runtime example_entropy ?st
     = Inr (?st\<lparr>localStorage := stored example_runtime (example_storage [lead_jo]) (JArr ?new),
               leadForm := resetForm (snd (validateForm new_form))\<rparr>)"
    using handleFormSubmit_add [OF valid blank loaded, of example_runtime example_entropy]
    by (simp add: example_app_simps del: JSON_stringify.simps)
  have room: "accepts (example_storage [lead_jo]) (JSON_stringify example_runtime (JArr ?new))"
    by (rule accepts_example) (simp add: added_new_form example_eval)
  have new: "list_all is_lead ?new" by (simp add: is_lead_jo is_lead_added)
  have "getLeads (example_storage [lead_jo]) = Inr (JArr [lead_jo])"
    using leads by (rule example_loaded)
  from getLeads_stored_leads [OF new this, of example_runtime] room
  have reloaded: "getLeads (stored example_runtime (example_storage [lead_jo]) (JArr ?new))
                  = Inr (JArr ?new)"
    by (simp only: if_True)
  have same: "id_of (added_lead example_entropy new_form) = id_of lead_jo"
    by (simp add: id_of_added generateId_example id_of_jo)
  then have clash: "\<not> distinct (map id_of ?new)" by simp
  from loaded leads valid blank submitted reloaded same clash show ?thesis by simp
qed

end
